theory Spec2Isabelle
  imports Complex_Main "HOL-Library.Monad_Syntax"
begin

unbundle bit_operations_syntax

section \<open>Machine integers\<close>

text \<open>
  The sources compute with \<open>size_t\<close>, taken here as the unsigned 64-bit integers.
  Values are natural numbers below \<open>2 ^ 64\<close>; every operation of the source that can
  leave that range is followed by \<open>wrap\<close>.
\<close>

definition wrap :: "nat \<Rightarrow> nat" where
  "wrap x = x mod 2 ^ 64"

section \<open>The size planner (\<open>util1d\<close> in fft1d.h)\<close>

text \<open>
  The body of the innermost \<open>for (;;)\<close> loop either leaves the whole function with
  \<open>return n\<close> or ends by \<open>break\<close> with an updated \<open>bestfac\<close>.
\<close>

datatype search = Return nat | Continue nat

text \<open>\<open>while (x<n) x*=2;\<close>\<close>

partial_function (option) while_double :: "nat \<Rightarrow> nat \<Rightarrow> nat option" where
  "while_double n x = (if x < n then while_double n (wrap (x * 2)) else Some x)"

text \<open>
  The \<open>for (;;)\<close> loop shared by \<open>good_size_cmplx\<close> and \<open>good_size_real\<close>:
  multiply by 3 while below \<open>n\<close>; above \<open>n\<close> record the candidate and halve, leaving
  at an odd value; stop the whole search when \<open>n\<close> itself is hit.
\<close>

partial_function (option) for_ever :: "nat \<Rightarrow> nat \<Rightarrow> nat \<Rightarrow> search option" where
  "for_ever n bestfac x =
     (if x < n then for_ever n bestfac (wrap (x * 3))
      else if x > n then
        (let bestfac' = (if x < bestfac then x else bestfac)
         in if x mod 2 = 1 then Some (Continue bestfac')
            else for_ever n bestfac' (x div 2))
      else Some (Return n))"

text \<open>\<open>for (size_t f1175=f117; f1175<bestfac; f1175*=5)\<close> of \<open>good_size_cmplx\<close>.\<close>

partial_function (option) loop_f1175 :: "nat \<Rightarrow> nat \<Rightarrow> nat \<Rightarrow> search option" where
  "loop_f1175 n bestfac f1175 =
     (if f1175 < bestfac then
        do {
          x \<leftarrow> while_double n f1175;
          r \<leftarrow> for_ever n bestfac x;
          case r of
            Return v \<Rightarrow> Some (Return v)
          | Continue b \<Rightarrow> loop_f1175 n b (wrap (f1175 * 5))
        }
      else Some (Continue bestfac))"

text \<open>\<open>for (size_t f117=f11; f117<bestfac; f117*=7)\<close>\<close>

partial_function (option) loop_f117 :: "nat \<Rightarrow> nat \<Rightarrow> nat \<Rightarrow> search option" where
  "loop_f117 n bestfac f117 =
     (if f117 < bestfac then
        do {
          r \<leftarrow> loop_f1175 n bestfac f117;
          case r of
            Return v \<Rightarrow> Some (Return v)
          | Continue b \<Rightarrow> loop_f117 n b (wrap (f117 * 7))
        }
      else Some (Continue bestfac))"

text \<open>\<open>for (size_t f11=1; f11<bestfac; f11*=11)\<close>\<close>

partial_function (option) loop_f11 :: "nat \<Rightarrow> nat \<Rightarrow> nat \<Rightarrow> search option" where
  "loop_f11 n bestfac f11 =
     (if f11 < bestfac then
        do {
          r \<leftarrow> loop_f117 n bestfac f11;
          case r of
            Return v \<Rightarrow> Some (Return v)
          | Continue b \<Rightarrow> loop_f11 n b (wrap (f11 * 11))
        }
      else Some (Continue bestfac))"

text \<open>
  \<open>util1d::good_size_cmplx\<close>. The result is \<open>None\<close> when the loops never end.
\<close>

definition good_size_cmplx :: "nat \<Rightarrow> nat option" where
  "good_size_cmplx n =
     (if n \<le> 12 then Some n
      else do {
        r \<leftarrow> loop_f11 n (wrap (2 * n)) 1;
        Some (case r of Return v \<Rightarrow> v | Continue bestfac \<Rightarrow> bestfac)
      })"

text \<open>\<open>for (size_t f5=1; f5<bestfac; f5*=5)\<close> of \<open>good_size_real\<close>.\<close>

partial_function (option) loop_f5 :: "nat \<Rightarrow> nat \<Rightarrow> nat \<Rightarrow> search option" where
  "loop_f5 n bestfac f5 =
     (if f5 < bestfac then
        do {
          x \<leftarrow> while_double n f5;
          r \<leftarrow> for_ever n bestfac x;
          case r of
            Return v \<Rightarrow> Some (Return v)
          | Continue b \<Rightarrow> loop_f5 n b (wrap (f5 * 5))
        }
      else Some (Continue bestfac))"

text \<open>\<open>util1d::good_size_real\<close>\<close>

definition good_size_real :: "nat \<Rightarrow> nat option" where
  "good_size_real n =
     (if n \<le> 6 then Some n
      else do {
        r \<leftarrow> loop_f5 n (wrap (2 * n)) 1;
        Some (case r of Return v \<Rightarrow> v | Continue bestfac \<Rightarrow> bestfac)
      })"

text \<open>
  The Python entry point \<open>good_size\<close> of fft_pymod.cc. The argument is parsed with
  format \<open>n\<close> into a \<open>Py_ssize_t\<close> (a signed 64-bit integer; a Python integer
  outside that range makes the parse fail), then checked, then cast to \<open>size_t\<close>.
\<close>

text \<open>
  \<open>ValueErrorFormat fmt n\<close> is the \<open>ValueError\<close> that \<open>PyErr_Format\<close> raises with the
  format string \<open>fmt\<close> and the argument \<open>n\<close>: its message is \<open>fmt\<close> with \<open>%zi\<close> replaced
  by the decimal form of \<open>n\<close>.
\<close>

datatype py_error = ParseError | ValueError string | ValueErrorFormat string int

definition size_max :: nat where
  "size_max = 2 ^ 64 - 1"

definition good_size :: "int \<Rightarrow> bool \<Rightarrow> (py_error + nat) option" where
  "good_size n0 real_flag =
     (if n0 < - (2 ^ 63) \<or> 2 ^ 63 \<le> n0 then Some (Inl ParseError)
      else if n0 < 0 then Some (Inl (ValueError ''Target length must be positive''))
      else if n0 - 1 > int (size_max div 11)
        then Some (Inl (ValueErrorFormat ''Target length is too large to perform an FFT: %zi'' n0))
      else map_option Inr (if real_flag then good_size_real (nat n0) else good_size_cmplx (nat n0)))"

declare while_double.simps [code]
declare for_ever.simps [code]
declare loop_f1175.simps [code]
declare loop_f117.simps [code]
declare loop_f11.simps [code]
declare loop_f5.simps [code]

section \<open>Specification of the size planner\<close>

text \<open>
  A number "has only prime factors in \<open>S\<close>" when every prime that divides it lies in
  \<open>S\<close>. Zero is divisible by every prime, so it never qualifies for a finite \<open>S\<close>.
\<close>

definition is_prime :: "nat \<Rightarrow> bool" where
  "is_prime p \<longleftrightarrow> 1 < p \<and> (\<forall>d. d dvd p \<longrightarrow> d = 1 \<or> d = p)"

definition only_prime_factors :: "nat set \<Rightarrow> nat \<Rightarrow> bool" where
  "only_prime_factors S m \<longleftrightarrow> (\<forall>p. is_prime p \<and> p dvd m \<longrightarrow> p \<in> S)"

text \<open>\<open>m\<close> is the smallest number from \<open>n\<close> upwards that satisfies \<open>P\<close>.\<close>

definition smallest_from :: "(nat \<Rightarrow> bool) \<Rightarrow> nat \<Rightarrow> nat \<Rightarrow> bool" where
  "smallest_from P n m \<longleftrightarrow> n \<le> m \<and> P m \<and> (\<forall>k. n \<le> k \<and> P k \<longrightarrow> m \<le> k)"

text \<open>
  The candidates the search enumerates: \<open>comp23 f\<close> are the multiples of \<open>f\<close> by
  powers of 2 and 3 (one run of the innermost loop), and \<open>mults p G f\<close> collects
  \<open>G\<close> over \<open>f, f * p, f * p\<^sup>2, \<dots>\<close> (one \<open>for\<close> loop with multiplier \<open>p\<close>).
\<close>

definition comp23 :: "nat \<Rightarrow> nat set" where
  "comp23 f = {f * 2 ^ i * 3 ^ j |i j. True}"

definition mults :: "nat \<Rightarrow> (nat \<Rightarrow> nat set) \<Rightarrow> nat \<Rightarrow> nat set" where
  "mults p G f = (\<Union>e. G (f * p ^ e))"

definition comp235 :: "nat \<Rightarrow> nat set" where
  "comp235 = mults 5 comp23"

definition comp2357 :: "nat \<Rightarrow> nat set" where
  "comp2357 = mults 7 comp235"

definition comp235711 :: "nat \<Rightarrow> nat set" where
  "comp235711 = mults 11 comp2357"

text \<open>
  What a loop started with \<open>bestfac = b\<close> guarantees about its outcome \<open>r\<close> once it
  has gone through the candidates \<open>G\<close>: an early \<open>return n\<close> means \<open>n\<close> is itself a
  candidate; otherwise the new \<open>bestfac\<close> is the old one or a candidate not below
  \<open>n\<close>, and no candidate from \<open>n\<close> upwards lies below it.
\<close>

definition candidates_ok :: "nat set \<Rightarrow> nat \<Rightarrow> nat \<Rightarrow> search \<Rightarrow> bool" where
  "candidates_ok G n b r =
     (case r of
        Return v \<Rightarrow> v = n \<and> n \<in> G
      | Continue b' \<Rightarrow> b' \<le> b \<and> (b' = b \<or> (b' \<in> G \<and> n \<le> b')) \<and> (\<forall>k\<in>G. n \<le> k \<longrightarrow> b' \<le> k))"

section \<open>Pass construction (\<open>cfftpass\<close> in fft1d.h)\<close>

text \<open>
  \<open>MR_assert\<close> failures and the exceptions thrown by the Python bindings, with the
  message of the source.
\<close>

datatype cpp_error = AssertionFailed string | InvalidArgument string | RuntimeError string

text \<open>Subtraction on \<open>size_t\<close>, for operands below \<open>2 ^ 64\<close>.\<close>

definition wrap_sub :: "nat \<Rightarrow> nat \<Rightarrow> nat" where
  "wrap_sub a b = (a + 2 ^ 64 - b) mod 2 ^ 64"

text \<open>\<open>while ((N&7)==0) { factors.push_back(8); N>>=3; }\<close>\<close>

partial_function (option) while_8 :: "nat \<Rightarrow> nat list \<Rightarrow> (nat \<times> nat list) option" where
  "while_8 N factors =
     (if N AND 7 = 0 then while_8 (drop_bit 3 N) (factors @ [8]) else Some (N, factors))"

text \<open>\<open>while ((N&3)==0) { factors.push_back(4); N>>=2; }\<close>\<close>

partial_function (option) while_4 :: "nat \<Rightarrow> nat list \<Rightarrow> (nat \<times> nat list) option" where
  "while_4 N factors =
     (if N AND 3 = 0 then while_4 (drop_bit 2 N) (factors @ [4]) else Some (N, factors))"

text \<open>
  \<open>if ((N&1)==0) { N>>=1; factors.push_back(2); swap(factors[0], factors.back()); }\<close>
\<close>

definition if_even :: "nat \<Rightarrow> nat list \<Rightarrow> nat \<times> nat list" where
  "if_even N factors =
     (if N AND 1 = 0 then
        (let fs = factors @ [2]; k = length fs - 1
         in (drop_bit 1 N, fs[0 := fs ! k, k := fs ! 0]))
      else (N, factors))"

text \<open>\<open>while ((N%divisor)==0) { factors.push_back(divisor); N/=divisor; }\<close>\<close>

partial_function (option) while_divides ::
    "nat \<Rightarrow> nat \<Rightarrow> nat list \<Rightarrow> (nat \<times> nat list) option" where
  "while_divides N divisor factors =
     (if N mod divisor = 0 then while_divides (N div divisor) divisor (factors @ [divisor])
      else Some (N, factors))"

text \<open>\<open>for (size_t divisor=3; divisor*divisor<=N; divisor+=2)\<close>\<close>

partial_function (option) for_divisor ::
    "nat \<Rightarrow> nat \<Rightarrow> nat list \<Rightarrow> (nat \<times> nat list) option" where
  "for_divisor N divisor factors =
     (if wrap (divisor * divisor) \<le> N then
        do {
          (N', factors') \<leftarrow> while_divides N divisor factors;
          for_divisor N' (wrap (divisor + 2)) factors'
        }
      else Some (N, factors))"

text \<open>\<open>cfftpass::factorize\<close>\<close>

definition factorize :: "nat \<Rightarrow> (cpp_error + nat list) option" where
  "factorize N =
     (if \<not> N > 0 then Some (Inl (AssertionFailed ''need a positive number''))
      else do {
        (N1, f1) \<leftarrow> while_8 N [];
        (N2, f2) \<leftarrow> while_4 N1 f1;
        (N3, f3) \<leftarrow> Some (if_even N2 f2);
        (N4, f4) \<leftarrow> for_divisor N3 3 f3;
        Some (Inr (if N4 > 1 then f4 @ [N4] else f4))
      })"

text \<open>
  The passes \<open>make_pass\<close> can build, by class. Only the choice of the class is modelled,
  and for the Bluestein pass the length \<open>ip2\<close> of its sub-transform; twiddle factors and
  sub-plans are floating-point data that no claim here depends on.
\<close>

datatype pass =
    Cfftp1 | Cfftp2 | Cfftp3 | Cfftp4 | Cfftp5 | Cfftp7 | Cfftp8 | Cfftp11
  | Cfftpg nat
  | Cfftpblue nat nat
  | Cfft_multipass nat
  | Cfftp_vecpass nat

text \<open>
  The member initialiser \<open>ip2(util1d::good_size_cmplx(ip*2-1))\<close> of the constructor
  \<open>cfftpblue::cfftpblue\<close>.
\<close>

definition cfftpblue :: "nat \<Rightarrow> pass option" where
  "cfftpblue ip = map_option (Cfftpblue ip) (good_size_cmplx (wrap_sub (wrap (ip * 2)) 1))"

text \<open>
  \<open>cfftpass::make_pass(l1, ido, ip, roots, vectorize)\<close>. The lane count
  \<open>vlen = native_simd<Tfs>::size()\<close> is declared outside these sources and is a parameter.
\<close>

definition make_pass :: "nat \<Rightarrow> nat \<Rightarrow> nat \<Rightarrow> nat \<Rightarrow> bool \<Rightarrow> (cpp_error + pass) option" where
  "make_pass vlen l1 ido ip vectorize =
     (if \<not> ip \<ge> 1 then Some (Inl (AssertionFailed ''no zero-sized FFTs''))
      else if vectorize \<and> ip > 300 \<and> ip < 32768 \<and> l1 = 1 \<and> ido = 1 \<and>
              vlen > 1 \<and> ip AND (vlen - 1) = 0
        then Some (Inr (Cfftp_vecpass ip))
      else if ip = 1 then Some (Inr Cfftp1)
      else do {
        r \<leftarrow> factorize ip;
        case r of
          Inl e \<Rightarrow> Some (Inl e)
        | Inr factors \<Rightarrow>
            if length factors = 1 then
              (if ip = 2 then Some (Inr Cfftp2)
               else if ip = 3 then Some (Inr Cfftp3)
               else if ip = 4 then Some (Inr Cfftp4)
               else if ip = 5 then Some (Inr Cfftp5)
               else if ip = 7 then Some (Inr Cfftp7)
               else if ip = 8 then Some (Inr Cfftp8)
               else if ip = 11 then Some (Inr Cfftp11)
               else if ip < 110 then Some (Inr (Cfftpg ip))
               else map_option Inr (cfftpblue ip))
            else Some (Inr (Cfft_multipass ip))
      })"

declare while_8.simps [code]
declare while_4.simps [code]
declare while_divides.simps [code]
declare for_divisor.simps [code]

section \<open>The Python bindings of the transforms (fft_pymod.cc)\<close>

text \<open>
  \<open>makeaxes\<close>: \<open>ndim\<close> is \<open>in.ndim()\<close>, the optional argument is \<open>None\<close> or a list of
  \<open>ptrdiff_t\<close>. The loop throws at the first axis out of range.
\<close>

definition norm_axis :: "nat \<Rightarrow> int \<Rightarrow> int" where
  "norm_axis ndim sz = (if sz < 0 then sz + int ndim else sz)"

definition makeaxes :: "nat \<Rightarrow> int list option \<Rightarrow> cpp_error + nat list" where
  "makeaxes ndim axes =
     (case axes of
        None \<Rightarrow> Inr [0..<ndim]
      | Some tmp \<Rightarrow>
          if length tmp > ndim \<or> length tmp = 0 then Inl (RuntimeError ''bad axes argument'')
          else if \<exists>sz\<in>set tmp. norm_axis ndim sz \<ge> int ndim \<or> norm_axis ndim sz < 0
            then Inl (InvalidArgument ''axes exceeds dimensionality of output'')
          else Inr (map (\<lambda>sz. nat (norm_axis ndim sz)) tmp))"

text \<open>
  The value of the floating-point type \<open>T\<close> that \<open>norm_fct\<close> returns. \<open>T\<close> is taken as
  the real numbers, together with the value \<open>+inf\<close> that the divisions \<open>1/ldbl_t(N)\<close>
  and \<open>1/sqrt(ldbl_t(N))\<close> give at \<open>N = 0\<close>.
\<close>

datatype fval = Finite real | PlusInf

text \<open>\<open>norm_fct(inorm, N)\<close>\<close>

definition norm_fct :: "int \<Rightarrow> nat \<Rightarrow> cpp_error + fval" where
  "norm_fct inorm N =
     (if inorm = 0 then Inr (Finite 1)
      else if inorm = 2 then Inr (if N = 0 then PlusInf else Finite (1 / real N))
      else if inorm = 1 then Inr (if N = 0 then PlusInf else Finite (1 / sqrt (real N)))
      else Inl (InvalidArgument ''invalid value for inorm (must be 0, 1, or 2)''))"

text \<open>
  The loop \<open>for (auto a: axes) N *= fct * size_t(int64_t(shape[a])+delta);\<close> of
  \<open>norm_fct(inorm, shape, axes, fct, delta)\<close>, in \<open>size_t\<close> arithmetic.
\<close>

definition norm_count :: "nat list \<Rightarrow> nat list \<Rightarrow> nat \<Rightarrow> int \<Rightarrow> nat" where
  "norm_count shape axes fct delta =
     fold (\<lambda>a N. wrap (N * wrap (fct * nat ((int (shape ! a) + delta) mod 2 ^ 64)))) axes 1"

definition norm_fct_axes :: "int \<Rightarrow> nat list \<Rightarrow> nat list \<Rightarrow> nat \<Rightarrow> int \<Rightarrow> cpp_error + fval" where
  "norm_fct_axes inorm shape axes fct delta =
     (if inorm = 0 then Inr (Finite 1) else norm_fct inorm (norm_count shape axes fct delta))"

text \<open>
  \<open>dct\<close> with \<open>dct_internal\<close>, and \<open>dst\<close> with \<open>dst_internal\<close>, as far as the
  normalisation factor \<open>fct\<close> handed to the transform: the check of \<open>type\<close>, the axes, and
  \<open>fct\<close>. The input array is given by its shape.
\<close>

definition dct :: "nat list \<Rightarrow> int \<Rightarrow> int list option \<Rightarrow> int \<Rightarrow> cpp_error + fval" where
  "dct shape type axes0 inorm =
     (if type < 1 \<or> type > 4 then Inl (InvalidArgument ''invalid DCT type'')
      else case makeaxes (length shape) axes0 of
        Inl e \<Rightarrow> Inl e
      | Inr axes \<Rightarrow>
          if type = 1 then norm_fct_axes inorm shape axes 2 (- 1)
          else norm_fct_axes inorm shape axes 2 0)"

definition dst :: "nat list \<Rightarrow> int \<Rightarrow> int list option \<Rightarrow> int \<Rightarrow> cpp_error + fval" where
  "dst shape type axes0 inorm =
     (if type < 1 \<or> type > 4 then Inl (InvalidArgument ''invalid DST type'')
      else case makeaxes (length shape) axes0 of
        Inl e \<Rightarrow> Inl e
      | Inr axes \<Rightarrow>
          if type = 1 then norm_fct_axes inorm shape axes 2 1
          else norm_fct_axes inorm shape axes 2 0)"

text \<open>
  \<open>c2r_internal\<close>, as far as the shape of the output and the normalisation factor. An
  output array passed by the caller is not modelled.
\<close>

definition c2r_internal ::
    "nat list \<Rightarrow> int list option \<Rightarrow> nat \<Rightarrow> int \<Rightarrow> cpp_error + (nat list \<times> fval)" where
  "c2r_internal shape axes0 lastsize inorm =
     (case makeaxes (length shape) axes0 of
        Inl e \<Rightarrow> Inl e
      | Inr axes \<Rightarrow>
          (let axis = last axes;
               lastsize' = (if lastsize = 0 then wrap_sub (wrap (2 * (shape ! axis))) 1
                            else lastsize)
           in (if wrap (lastsize' div 2 + 1) \<noteq> shape ! axis
               then Inl (InvalidArgument ''bad lastsize'')
               else (let dims_out = list_update shape axis lastsize'
                     in (case norm_fct_axes inorm dims_out axes 1 0 of
                           Inl e \<Rightarrow> Inl e
                         | Inr fct \<Rightarrow> Inr (dims_out, fct))))))"

text \<open>
  The specification's count: the product over the transformed axes of
  \<open>2 * (n + delta)\<close>, \<open>n\<close> the length of the axis.
\<close>

definition axes_count :: "nat list \<Rightarrow> nat list \<Rightarrow> int \<Rightarrow> nat" where
  "axes_count shape axes delta = prod_list (map (\<lambda>a. 2 * nat (int (shape ! a) + delta)) axes)"

section \<open>The gridder (gridder_cxx.h)\<close>

text \<open>
  The floating-point types of the gridder (\<open>double\<close> and the template parameter \<open>T\<close>)
  are taken as the real numbers, \<open>complex<T>\<close> as the complex numbers: sums, products,
  quotients and comparisons are exact. The conversion of a non-negative \<open>double\<close> to
  \<open>size_t\<close> truncates.
\<close>

definition to_size_t :: "real \<Rightarrow> nat" where
  "to_size_t x = nat \<lfloor>x\<rfloor>"

subsection \<open>Two-dimensional arrays\<close>

text \<open>
  A \<open>mav<T,2>\<close> with its two extents and its elements in row-major order;
  \<open>m(i,j)\<close> is \<open>mav_at m i j\<close>.
\<close>

record 'a mav2 =
  shape0 :: nat
  shape1 :: nat
  elems :: "'a list"

definition mav_size :: "'a mav2 \<Rightarrow> nat" where
  "mav_size m = shape0 m * shape1 m"

definition mav_at :: "'a mav2 \<Rightarrow> nat \<Rightarrow> nat \<Rightarrow> 'a" where
  "mav_at m i j = elems m ! (i * shape1 m + j)"

definition mav_fill :: "'a mav2 \<Rightarrow> 'a \<Rightarrow> 'a mav2" where
  "mav_fill m x = m\<lparr>elems := replicate (length (elems m)) x\<rparr>"

text \<open>The array \<open>mav<T,2>(nullptr, {0,0}, false)\<close> that stands for an absent argument.\<close>

definition mav_null :: "'a mav2" where
  "mav_null = \<lparr>shape0 = 0, shape1 = 0, elems = []\<rparr>"

subsection \<open>Baselines\<close>

text \<open>
  The members set by the constructor \<open>Baselines::Baselines\<close>. The member \<open>umax\<close> is left
  out: the constructor reads it in \<open>max(umax, \<dots>)\<close> before anything has been assigned to
  it, and no claim depends on it.
\<close>

record baselines =
  coord :: "(real \<times> real \<times> real) list"
  f_over_c :: "real list"
  nrows :: nat
  nchan :: nat
  vmax :: real

definition speedOfLight :: real where
  "speedOfLight = 299792458"

definition Baselines :: "real mav2 \<Rightarrow> real list \<Rightarrow> bool \<Rightarrow> cpp_error + baselines" where
  "Baselines coord0 freq negate_v =
     (if shape1 coord0 \<noteq> 3 then Inl (AssertionFailed ''dimension mismatch'')
      else if list_ex (\<lambda>f. \<not> f > 0) freq
        then Inl (AssertionFailed ''negative channel frequency encountered'')
      else
        (let foc = map (\<lambda>f. f / speedOfLight) freq;
             fcmax = fold (\<lambda>f m. max m \<bar>f\<bar>) foc 0;
             vfac = (if negate_v then - 1 else 1);
             rows = [0..<shape0 coord0]
         in Inr \<lparr>coord = map (\<lambda>i. (mav_at coord0 i 0, vfac * mav_at coord0 i 1, mav_at coord0 i 2)) rows,
                 f_over_c = foc,
                 nrows = shape0 coord0,
                 nchan = length freq,
                 vmax = fold (\<lambda>i m. max m \<bar>mav_at coord0 i 1\<bar>) rows 0 * fcmax\<rparr>))"

text \<open>\<open>effectiveCoord(row, chan).w\<close>\<close>

definition effective_w :: "baselines \<Rightarrow> nat \<Rightarrow> nat \<Rightarrow> real" where
  "effective_w bl irow ichan = snd (snd (coord bl ! irow)) * (f_over_c bl ! ichan)"

subsection \<open>The initial scan\<close>

text \<open>What \<open>scanData\<close> leaves in the members \<open>active\<close>, \<open>nvis\<close>, \<open>wmin_d\<close>, \<open>wmax_d\<close>.\<close>

record scan =
  active :: "nat list"
  nvis :: nat
  wmin_d :: real
  wmax_d :: real

text \<open>
  \<open>std::norm\<close> of a complex number, in exact arithmetic. In floating point the squares
  of a tiny non-zero datum can underflow to 0; that is not modelled, so here the norm is 0
  only for the datum 0.
\<close>

definition cnorm :: "complex \<Rightarrow> real" where
  "cnorm z = Re z * Re z + Im z * Im z"

text \<open>The test of the inner loop of \<open>scanData\<close>.\<close>

definition sample_test ::
    "complex mav2 \<Rightarrow> real mav2 \<Rightarrow> nat mav2 \<Rightarrow> nat \<Rightarrow> nat \<Rightarrow> bool" where
  "sample_test ms_in wgt mask0 irow ichan \<longleftrightarrow>
     (\<not> mav_size ms_in \<noteq> 0 \<or> cnorm (mav_at ms_in irow ichan) \<noteq> 0) \<and>
     (\<not> mav_size wgt \<noteq> 0 \<or> mav_at wgt irow ichan \<noteq> 0) \<and>
     (\<not> mav_size mask0 \<noteq> 0 \<or> mav_at mask0 irow ichan \<noteq> 0)"

text \<open>
  One pass through the body of the loops over \<open>irow\<close> and \<open>ichan\<close>. The threads of
  \<open>execParallel\<close> split the rows and combine their counts, minima and maxima under a
  mutex; counting, \<open>min\<close> and \<open>max\<close> do not depend on the order, so the rows are taken
  in sequence.
\<close>

definition scan_step ::
    "baselines \<Rightarrow> complex mav2 \<Rightarrow> real mav2 \<Rightarrow> nat mav2 \<Rightarrow> nat \<times> nat \<Rightarrow> scan \<Rightarrow> scan" where
  "scan_step bl ms_in wgt mask0 p s =
     (case p of (irow, ichan) \<Rightarrow>
        if sample_test ms_in wgt mask0 irow ichan then
          s\<lparr>active := (active s)[irow * nchan bl + ichan := 1],
            nvis := nvis s + 1,
            wmin_d := min (wmin_d s) \<bar>effective_w bl irow ichan\<bar>,
            wmax_d := max (wmax_d s) \<bar>effective_w bl irow ichan\<bar>\<rparr>
        else s)"

definition scanData ::
    "baselines \<Rightarrow> complex mav2 \<Rightarrow> real mav2 \<Rightarrow> nat mav2 \<Rightarrow> cpp_error + scan" where
  "scanData bl ms_in wgt mask0 =
     (let nrow = nrows bl; nch = nchan bl
      in if mav_size wgt \<noteq> 0 \<and> (shape0 wgt, shape1 wgt) \<noteq> (nrow, nch)
           then Inl (AssertionFailed ''shape mismatch'')
         else if mav_size ms_in \<noteq> 0 \<and> (shape0 ms_in, shape1 ms_in) \<noteq> (nrow, nch)
           then Inl (AssertionFailed ''shape mismatch'')
         else if mav_size mask0 \<noteq> 0 \<and> (shape0 mask0, shape1 mask0) \<noteq> (nrow, nch)
           then Inl (AssertionFailed ''shape mismatch'')
         else Inr (fold (scan_step bl ms_in wgt mask0) (List.product [0..<nrow] [0..<nch])
                     \<lparr>active = replicate (nrow * nch) 0, nvis = 0,
                      wmin_d = 10 ^ 300, wmax_d = - (10 ^ 300)\<rparr>))"

subsection \<open>The constructor of \<open>Params\<close> and the two entry points\<close>

text \<open>
  How the constructor \<open>Params::Params\<close> ends, each time with the output arrays
  \<open>ms_out\<close> and \<open>dirty_out\<close> as they are at that moment: an assertion fails; or it returns
  at \<open>if (nvis==0)\<close>; or it goes on to plan and to grid, which is not modelled further
  here.
\<close>

datatype outcome =
    Failed cpp_error "complex mav2" "real mav2"
  | Returned "complex mav2" "real mav2"
  | Proceeds scan "complex mav2" "real mav2"

definition Params ::
    "real mav2 \<Rightarrow> real list \<Rightarrow> complex mav2 \<Rightarrow> complex mav2 \<Rightarrow> real mav2 \<Rightarrow> real mav2 \<Rightarrow>
     real mav2 \<Rightarrow> nat mav2 \<Rightarrow> bool \<Rightarrow> outcome" where
  "Params uvw freq ms_in ms_out dirty_in dirty_out wgt mask0 negate_v =
     (let gridding = mav_size ms_in > 0
      in case Baselines uvw freq negate_v of
           Inl e \<Rightarrow> Failed e ms_out dirty_out
         | Inr bl \<Rightarrow>
             (let ms_out1 = (if \<not> gridding then mav_fill ms_out 0 else ms_out)
              in case scanData bl ms_in wgt mask0 of
                   Inl e \<Rightarrow> Failed e ms_out1 dirty_out
                 | Inr s \<Rightarrow>
                     if nvis s = 0
                     then Returned ms_out1 (if gridding then mav_fill dirty_out 0 else dirty_out)
                     else Proceeds s ms_out1 dirty_out))"

definition ms2dirty ::
    "real mav2 \<Rightarrow> real list \<Rightarrow> complex mav2 \<Rightarrow> real mav2 \<Rightarrow> nat mav2 \<Rightarrow> bool \<Rightarrow> real mav2 \<Rightarrow> outcome"
  where
  "ms2dirty uvw freq ms wgt mask0 negate_v dirty =
     Params uvw freq ms mav_null mav_null dirty wgt mask0 negate_v"

definition dirty2ms ::
    "real mav2 \<Rightarrow> real list \<Rightarrow> real mav2 \<Rightarrow> real mav2 \<Rightarrow> nat mav2 \<Rightarrow> bool \<Rightarrow> complex mav2 \<Rightarrow> outcome"
  where
  "dirty2ms uvw freq dirty wgt mask0 negate_v ms =
     Params uvw freq mav_null ms dirty mav_null wgt mask0 negate_v"

subsection \<open>Planning: grid size and w-planes\<close>






text \<open>
  \<open>0.5/ofactor/abs(nm1min)\<close> and \<open>size_t((wmax_d-wmin_d)/dw+supp)\<close>, which occur both in
  \<open>getNuNv\<close> and in \<open>countRanges\<close>.
\<close>

definition plane_spacing :: "real \<Rightarrow> real \<Rightarrow> real" where
  "plane_spacing ofactor nm1min = 0.5 / ofactor / \<bar>nm1min\<bar>"

definition plane_count :: "real \<Rightarrow> real \<Rightarrow> real \<Rightarrow> nat \<Rightarrow> nat" where
  "plane_count wmax0 wmin0 dw supp = to_size_t ((wmax0 - wmin0) / dw + real supp)"




text \<open>
  The first statement of \<open>countRanges\<close>: the members \<open>dw\<close>, \<open>nplanes\<close> and \<open>wmin\<close>.
\<close>

definition countRanges_planes ::
    "bool \<Rightarrow> real \<Rightarrow> real \<Rightarrow> real \<Rightarrow> real \<Rightarrow> nat \<Rightarrow> real \<times> nat \<times> real" where
  "countRanges_planes do_wgridding ofactor nm1min wmin0 wmax0 supp =
     (if do_wgridding then
        (let dw = plane_spacing ofactor nm1min;
             nplanes = plane_count wmax0 wmin0 dw supp
         in (dw, nplanes,
             (wmin0 + wmax0) * 0.5 - 0.5 * real (wrap_sub nplanes 1) * dw))
      else (0, 0, 0))"




section \<open>Correctness of the size planner\<close>

lemma wrap_id: "x < 2 ^ 64 \<Longrightarrow> wrap x = x"
  by (simp add: wrap_def)

lemma while_double_correct:
  assumes "0 < x" "n \<le> 2 ^ 63"
  shows "\<exists>k. while_double n x = Some (x * 2 ^ k) \<and> n \<le> x * 2 ^ k \<and> (\<forall>k'<k. x * 2 ^ k' < n)"
  using assms
proof (induction "n - x" arbitrary: x rule: less_induct)
  case less
  show ?case
  proof (cases "x < n")
    case False
    then have "while_double n x = Some (x * 2 ^ 0)"
      by (simp add: while_double.simps)
    with False show ?thesis
      by (intro exI [of _ 0]) simp
  next
    case True
    with less.prems have w: "wrap (x * 2) = x * 2"
      by (intro wrap_id) simp
    have "n - x * 2 < n - x" using True less.prems by simp
    from less.hyps [OF this] less.prems obtain k where
      k: "while_double n (x * 2) = Some (x * 2 * 2 ^ k)" "n \<le> x * 2 * 2 ^ k"
         "\<forall>k'<k. x * 2 * 2 ^ k' < n"
      by auto
    have 1: "while_double n x = Some (x * 2 ^ Suc k)"
      using True w k(1) by (subst while_double.simps) (simp add: mult.assoc)
    have 2: "\<forall>k'<Suc k. x * 2 ^ k' < n"
    proof (intro allI impI)
      fix k' assume "k' < Suc k"
      show "x * 2 ^ k' < n"
      proof (cases k')
        case 0
        then show ?thesis using True by simp
      next
        case (Suc m)
        with \<open>k' < Suc k\<close> k(3) have "x * 2 * 2 ^ m < n" by simp
        then show ?thesis using Suc by (simp add: mult.assoc)
      qed
    qed
    show ?thesis
      using 1 2 k(2) by (intro exI [of _ "Suc k"]) (simp add: mult.assoc)
  qed
qed


lemma candidates_ok_weaken:
  assumes "candidates_ok G n b' r" "b' \<le> b" "b' = b \<or> (b' \<in> G \<and> n \<le> b')"
  shows "candidates_ok G n b r"
  using assms by (auto simp: candidates_ok_def split: search.splits)

lemma for_ever_correct:
  assumes "odd f" "n \<le> 2 ^ 61"
    and "x = f * 2 ^ i * 3 ^ j"
    and "\<forall>i' j'. i < i' \<longrightarrow> n \<le> f * 2 ^ i' * 3 ^ j' \<longrightarrow> b \<le> f * 2 ^ i' * 3 ^ j'"
    and "\<forall>j'<j. f * 2 ^ i * 3 ^ j' < n"
  shows "\<exists>r. for_ever n b x = Some r \<and> candidates_ok (comp23 f) n b r"
  using assms(3-)
proof (induction "i * (n + 1) + (n - x)" arbitrary: i j b x rule: less_induct)
  case less
  note x = \<open>x = f * 2 ^ i * 3 ^ j\<close>
  note above = \<open>\<forall>i' j'. i < i' \<longrightarrow> n \<le> f * 2 ^ i' * 3 ^ j' \<longrightarrow> b \<le> f * 2 ^ i' * 3 ^ j'\<close>
  note left = \<open>\<forall>j'<j. f * 2 ^ i * 3 ^ j' < n\<close>
  have fpos: "0 < f" using \<open>odd f\<close> by (cases f) auto
  then have xpos: "0 < x" using x by simp
  have inG: "x \<in> comp23 f" unfolding comp23_def x by blast
  have right: "x \<le> f * 2 ^ i * 3 ^ j'" if "j \<le> j'" for j'
    unfolding x using that by (simp add: power_increasing)
  consider (lt) "x < n" | (gt) "n < x" | (eq) "x = n" by linarith
  then show ?case
  proof cases
    case eq
    then have "for_ever n b x = Some (Return n)"
      by (subst for_ever.simps) simp
    moreover have "candidates_ok (comp23 f) n b (Return n)"
      using inG eq by (simp add: candidates_ok_def)
    ultimately show ?thesis by blast
  next
    case lt
    then have w: "wrap (x * 3) = x * 3"
      using \<open>n \<le> 2 ^ 61\<close> by (intro wrap_id) simp
    have m: "i * (n + 1) + (n - x * 3) < i * (n + 1) + (n - x)"
      using lt xpos by simp
    have x3: "x * 3 = f * 2 ^ i * 3 ^ Suc j" using x by simp
    have left3: "\<forall>j'<Suc j. f * 2 ^ i * 3 ^ j' < n"
      using left lt x by (auto simp: less_Suc_eq)
    from less.hyps [OF m x3 above left3]
    obtain r where "for_ever n b (x * 3) = Some r" "candidates_ok (comp23 f) n b r"
      by blast
    moreover have "for_ever n b x = for_ever n b (x * 3)"
      using lt w by (subst for_ever.simps) simp
    ultimately show ?thesis by auto
  next
    case gt
    define b' where "b' = (if x < b then x else b)"
    have b'le: "b' \<le> b" "b' \<le> x" by (auto simp: b'_def)
    have b'in: "b' = b \<or> (b' \<in> comp23 f \<and> n \<le> b')"
      using inG gt by (auto simp: b'_def)
    have row: "b' \<le> f * 2 ^ i' * 3 ^ j'"
      if "i \<le> i'" "n \<le> f * 2 ^ i' * 3 ^ j'" for i' j'
    proof (cases "i < i'")
      case True
      with above that b'le show ?thesis by (meson order_trans)
    next
      case False
      with that have [simp]: "i' = i" by simp
      have "\<not> j' < j" using left that(2) by auto
      then show ?thesis using right [of j'] b'le by simp
    qed
    show ?thesis
    proof (cases "x mod 2 = 1")
      case True
      then have "odd x" by presburger
      then have i0: "i = 0" using x by (cases i) auto
      have "for_ever n b x = Some (Continue b')"
        using gt True by (subst for_ever.simps) (simp add: b'_def)
      moreover have "candidates_ok (comp23 f) n b' (Continue b')"
        using row i0 by (auto simp: candidates_ok_def comp23_def)
      ultimately show ?thesis
        using candidates_ok_weaken [OF _ b'le(1) b'in] by blast
    next
      case False
      then have "even x" by presburger
      then have ipos: "0 < i" using x \<open>odd f\<close> by (cases i) auto
      then obtain i1 where i1: "i = Suc i1" by (cases i) auto
      have x2: "x div 2 = f * 2 ^ i1 * 3 ^ j" using x i1 by simp
      have m: "i1 * (n + 1) + (n - x div 2) < i * (n + 1) + (n - x)"
        using i1 by simp
      have above2: "\<forall>i' j'. i1 < i' \<longrightarrow> n \<le> f * 2 ^ i' * 3 ^ j' \<longrightarrow> b' \<le> f * 2 ^ i' * 3 ^ j'"
        using row i1 by auto
      have left2: "\<forall>j'<j. f * 2 ^ i1 * 3 ^ j' < n"
      proof (intro allI impI)
        fix j' assume "j' < j"
        with left have "f * 2 ^ i * 3 ^ j' < n" by simp
        moreover have "f * 2 ^ i1 * 3 ^ j' \<le> f * 2 ^ i * 3 ^ j'" using i1 by simp
        ultimately show "f * 2 ^ i1 * 3 ^ j' < n" by linarith
      qed
      from less.hyps [OF m x2 above2 left2]
      obtain r where r: "for_ever n b' (x div 2) = Some r" "candidates_ok (comp23 f) n b' r"
        by blast
      have "for_ever n b x = for_ever n b' (x div 2)"
        using gt False by (subst for_ever.simps) (simp add: b'_def)
      with r candidates_ok_weaken [OF r(2) b'le(1) b'in] show ?thesis by auto
    qed
  qed
qed


lemma mults_split: "mults p G f = G f \<union> mults p G (f * p)"
proof -
  have "(\<Union>e. G (f * p ^ e)) = G (f * p ^ 0) \<union> (\<Union>e. G (f * p ^ Suc e))"
  proof (intro set_eqI iffI)
    fix k assume "k \<in> (\<Union>e. G (f * p ^ e))"
    then obtain e where e: "k \<in> G (f * p ^ e)" by blast
    show "k \<in> G (f * p ^ 0) \<union> (\<Union>e. G (f * p ^ Suc e))"
      using e by (cases e) auto
  next
    fix k assume "k \<in> G (f * p ^ 0) \<union> (\<Union>e. G (f * p ^ Suc e))"
    then show "k \<in> (\<Union>e. G (f * p ^ e))" by blast
  qed
  then show ?thesis by (simp add: mults_def mult.assoc)
qed

lemma mults_lower:
  assumes "\<And>f k. k \<in> G f \<Longrightarrow> f \<le> k" "0 < p" "k \<in> mults p G f"
  shows "f \<le> k"
proof -
  from assms(3) obtain e where "k \<in> G (f * p ^ e)" by (auto simp: mults_def)
  then have "f * p ^ e \<le> k" by (rule assms(1))
  moreover have "f \<le> f * p ^ e" using \<open>0 < p\<close> by simp
  ultimately show ?thesis by (rule order_trans [rotated])
qed

lemma mults_base: "G f \<subseteq> mults p G f"
  using mults_split [of p G f] by blast

lemma comp23_lower: "k \<in> comp23 f \<Longrightarrow> f \<le> k"
proof -
  assume "k \<in> comp23 f"
  then obtain i j where k: "k = f * (2 ^ i * 3 ^ j)" by (auto simp: comp23_def mult.assoc)
  have "f * 1 \<le> f * (2 ^ i * 3 ^ j)" by (intro mult_le_mono2) simp
  then show ?thesis using k by simp
qed

lemma candidates_ok_exit: "\<forall>k\<in>G. b \<le> k \<Longrightarrow> candidates_ok G n b (Continue b)"
  by (simp add: candidates_ok_def)

lemma candidates_ok_step:
  assumes "candidates_ok G1 n b (Continue b1)" "candidates_ok G2 n b1 r"
  shows "candidates_ok (G1 \<union> G2) n b r"
  using assms by (cases r) (auto simp: candidates_ok_def)

lemma candidates_ok_return:
  "candidates_ok G1 n b (Return v) \<Longrightarrow> candidates_ok (G1 \<union> G2) n b (Return v)"
  by (simp add: candidates_ok_def)

lemma loop_correct:
  fixes loop body :: "nat \<Rightarrow> nat \<Rightarrow> nat \<Rightarrow> search option"
  assumes unfold: "\<And>b f. loop n b f =
      (if f < b then body n b f \<bind> (\<lambda>r. case r of Return v \<Rightarrow> Some (Return v)
                                        | Continue b' \<Rightarrow> loop n b' (wrap (f * p)))
       else Some (Continue b))"
    and body: "\<And>b f. Pre f \<Longrightarrow> b \<le> 2 * n \<Longrightarrow> b \<le> 2 ^ 61 \<or> f = 1 \<Longrightarrow>
      \<exists>r. body n b f = Some r \<and> candidates_ok (Gb f) n b r"
    and split: "\<And>f. Gl f = Gb f \<union> Gl (f * p)"
    and lower: "\<And>f k. k \<in> Gl f \<Longrightarrow> f \<le> k"
    and big: "2 ^ 61 \<in> Gb 1"
    and nofl: "\<And>f. Pre f \<Longrightarrow> f < 2 ^ 61 \<Longrightarrow> f * p < 2 ^ 64"
    and pre: "\<And>f. Pre f \<Longrightarrow> Pre (f * p) \<and> 0 < f"
    and p: "1 < p" and n: "n \<le> 2 ^ 61"
  shows "Pre f \<Longrightarrow> b \<le> 2 * n \<Longrightarrow> b \<le> 2 ^ 61 \<or> f = 1 \<Longrightarrow>
    \<exists>r. loop n b f = Some r \<and> candidates_ok (Gl f) n b r"
proof (induction "2 * n - f" arbitrary: f b rule: less_induct)
  case less
  show ?case
  proof (cases "f < b")
    case False
    then have "loop n b f = Some (Continue b)" by (subst unfold) simp
    moreover have "candidates_ok (Gl f) n b (Continue b)"
      using False lower [of _ f] by (intro candidates_ok_exit) fastforce
    ultimately show ?thesis by blast
  next
    case True
    from body [OF less.prems] obtain r0 where
      r0: "body n b f = Some r0" "candidates_ok (Gb f) n b r0" by blast
    show ?thesis
    proof (cases r0)
      case (Return v)
      then have "loop n b f = Some (Return v)"
        using True r0(1) by (subst unfold) simp
      moreover have "candidates_ok (Gl f) n b (Return v)"
        using r0(2) Return by (subst split) (simp add: candidates_ok_return)
      ultimately show ?thesis by blast
    next
      case (Continue b1)
      have fpos: "0 < f" using pre less.prems(1) by blast
      have "f < 2 ^ 61" using True less.prems(3) by auto
      then have w: "wrap (f * p) = f * p"
        using nofl less.prems(1) by (intro wrap_id) blast
      have b1: "b1 \<le> b" using r0(2) Continue by (simp add: candidates_ok_def)
      have b1': "b1 \<le> 2 ^ 61"
      proof (cases "f = 1")
        case True
        then show ?thesis using r0(2) Continue big n by (auto simp: candidates_ok_def)
      next
        case False
        then show ?thesis using less.prems(3) b1 by simp
      qed
      have "f < f * p" using p fpos by simp
      then have m: "2 * n - f * p < 2 * n - f" using True less.prems(2) by linarith
      have "\<exists>r. loop n b1 (f * p) = Some r \<and> candidates_ok (Gl (f * p)) n b1 r"
        using pre less.prems(1,2) b1 b1' by (intro less.hyps [OF m]) auto
      then obtain r where r: "loop n b1 (f * p) = Some r" "candidates_ok (Gl (f * p)) n b1 r"
        by blast
      have "loop n b f = Some r"
        using True r0(1) Continue w r(1) by (subst unfold) simp
      moreover have "candidates_ok (Gl f) n b r"
        using r0(2) r(2) Continue by (subst split) (simp add: candidates_ok_step)
      ultimately show ?thesis by blast
    qed
  qed
qed

lemma row_correct:
  assumes "odd f" "n \<le> 2 ^ 61" "b \<le> 2 * n"
  shows "\<exists>r. (while_double n f \<bind> for_ever n b) = Some r \<and> candidates_ok (comp23 f) n b r"
proof -
  have fpos: "0 < f" using \<open>odd f\<close> by (cases f) auto
  have "n \<le> 2 ^ 63" using assms(2) by (rule order_trans) simp
  from while_double_correct [OF fpos this] obtain k where
    k: "while_double n f = Some (f * 2 ^ k)" "n \<le> f * 2 ^ k" by blast
  have above: "\<forall>i' j'. k < i' \<longrightarrow> n \<le> f * 2 ^ i' * 3 ^ j' \<longrightarrow> b \<le> f * 2 ^ i' * 3 ^ j'"
  proof (intro allI impI)
    fix i' j' :: nat assume "k < i'"
    then have "(2::nat) ^ Suc k \<le> 2 ^ i'" by (intro power_increasing) auto
    then have "f * 2 ^ Suc k \<le> f * 2 ^ i'" by (intro mult_le_mono2)
    also have "\<dots> * 1 \<le> f * 2 ^ i' * 3 ^ j'" by (intro mult_le_mono2) simp
    finally have "2 * (f * 2 ^ k) \<le> f * 2 ^ i' * 3 ^ j'" by (simp add: mult.assoc)
    with k(2) assms(3) show "b \<le> f * 2 ^ i' * 3 ^ j'" by linarith
  qed
  have "\<exists>r. for_ever n b (f * 2 ^ k) = Some r \<and> candidates_ok (comp23 f) n b r"
    by (rule for_ever_correct [OF assms(1,2) _ above, where j = 0]) simp_all
  with k(1) show ?thesis by simp
qed


lemma comp235_lower: "k \<in> comp235 f \<Longrightarrow> f \<le> k"
  unfolding comp235_def by (rule mults_lower [OF comp23_lower]) auto

lemma comp2357_lower: "k \<in> comp2357 f \<Longrightarrow> f \<le> k"
  unfolding comp2357_def by (rule mults_lower [OF comp235_lower]) auto

lemma comp235711_lower: "k \<in> comp235711 f \<Longrightarrow> f \<le> k"
  unfolding comp235711_def by (rule mults_lower [OF comp2357_lower]) auto

lemma pow2_in_comp23: "2 ^ k \<in> comp23 1"
  unfolding comp23_def by (rule CollectI, rule exI [of _ k], rule exI [of _ 0]) simp

lemma pow2_in_comp235: "2 ^ k \<in> comp235 1"
  unfolding comp235_def using pow2_in_comp23 mults_base by blast

lemma pow2_in_comp2357: "2 ^ k \<in> comp2357 1"
  unfolding comp2357_def using pow2_in_comp235 mults_base by blast

lemma pow2_in_comp235711: "2 ^ k \<in> comp235711 1"
  unfolding comp235711_def using pow2_in_comp2357 mults_base by blast

lemma loop_f5_correct:
  assumes "n \<le> 2 ^ 61" "odd f" "b \<le> 2 * n" "b \<le> 2 ^ 61 \<or> f = 1"
  shows "\<exists>r. loop_f5 n b f = Some r \<and> candidates_ok (comp235 f) n b r"
proof (rule loop_correct [where body = "\<lambda>n b f. while_double n f \<bind> for_ever n b"
      and Pre = odd and Gb = comp23 and p = 5, OF _ _ _ _ _ _ _ _ assms(1) assms(2-4)])
  show "loop_f5 n b f =
      (if f < b then (while_double n f \<bind> for_ever n b) \<bind>
           (\<lambda>r. case r of Return v \<Rightarrow> Some (Return v) | Continue b' \<Rightarrow> loop_f5 n b' (wrap (f * 5)))
       else Some (Continue b))" for b f
    by (subst loop_f5.simps) simp
  show "\<exists>r. (while_double n f \<bind> for_ever n b) = Some r \<and> candidates_ok (comp23 f) n b r"
    if "odd f" "b \<le> 2 * n" for b f
    using that assms(1) by (intro row_correct)
  show "comp235 f = comp23 f \<union> comp235 (f * 5)" for f
    unfolding comp235_def by (rule mults_split)
  show "f \<le> k" if "k \<in> comp235 f" for f k
    using that by (rule comp235_lower)
  show "2 ^ 61 \<in> comp23 1" by (rule pow2_in_comp23)
  show "f * 5 < 2 ^ 64" if "f < 2 ^ 61" for f :: nat
    using that by simp
  show "odd (f * 5) \<and> 0 < f" if "odd f" for f :: nat
    using that by (cases f) auto
  show "(1::nat) < 5" by simp
qed

lemma loop_f1175_correct:
  assumes "n \<le> 2 ^ 61" "odd f" "b \<le> 2 * n" "b \<le> 2 ^ 61 \<or> f = 1"
  shows "\<exists>r. loop_f1175 n b f = Some r \<and> candidates_ok (comp235 f) n b r"
proof (rule loop_correct [where body = "\<lambda>n b f. while_double n f \<bind> for_ever n b"
      and Pre = odd and Gb = comp23 and p = 5, OF _ _ _ _ _ _ _ _ assms(1) assms(2-4)])
  show "loop_f1175 n b f =
      (if f < b then (while_double n f \<bind> for_ever n b) \<bind>
           (\<lambda>r. case r of Return v \<Rightarrow> Some (Return v) | Continue b' \<Rightarrow> loop_f1175 n b' (wrap (f * 5)))
       else Some (Continue b))" for b f
    by (subst loop_f1175.simps) simp
  show "\<exists>r. (while_double n f \<bind> for_ever n b) = Some r \<and> candidates_ok (comp23 f) n b r"
    if "odd f" "b \<le> 2 * n" for b f
    using that assms(1) by (intro row_correct)
  show "comp235 f = comp23 f \<union> comp235 (f * 5)" for f
    unfolding comp235_def by (rule mults_split)
  show "f \<le> k" if "k \<in> comp235 f" for f k
    using that by (rule comp235_lower)
  show "2 ^ 61 \<in> comp23 1" by (rule pow2_in_comp23)
  show "f * 5 < 2 ^ 64" if "f < 2 ^ 61" for f :: nat
    using that by simp
  show "odd (f * 5) \<and> 0 < f" if "odd f" for f :: nat
    using that by (cases f) auto
  show "(1::nat) < 5" by simp
qed

lemma loop_f117_correct:
  assumes "n \<le> 2 ^ 61" "odd f" "b \<le> 2 * n" "b \<le> 2 ^ 61 \<or> f = 1"
  shows "\<exists>r. loop_f117 n b f = Some r \<and> candidates_ok (comp2357 f) n b r"
proof (rule loop_correct [where body = loop_f1175
      and Pre = odd and Gb = comp235 and p = 7, OF _ _ _ _ _ _ _ _ assms(1) assms(2-4)])
  show "loop_f117 n b f =
      (if f < b then loop_f1175 n b f \<bind>
           (\<lambda>r. case r of Return v \<Rightarrow> Some (Return v) | Continue b' \<Rightarrow> loop_f117 n b' (wrap (f * 7)))
       else Some (Continue b))" for b f
    by (subst loop_f117.simps) simp
  show "\<exists>r. loop_f1175 n b f = Some r \<and> candidates_ok (comp235 f) n b r"
    if "odd f" "b \<le> 2 * n" "b \<le> 2 ^ 61 \<or> f = 1" for b f
    using assms(1) that by (rule loop_f1175_correct)
  show "comp2357 f = comp235 f \<union> comp2357 (f * 7)" for f
    unfolding comp2357_def by (rule mults_split)
  show "f \<le> k" if "k \<in> comp2357 f" for f k
    using that by (rule comp2357_lower)
  show "2 ^ 61 \<in> comp235 1" by (rule pow2_in_comp235)
  show "f * 7 < 2 ^ 64" if "f < 2 ^ 61" for f :: nat
    using that by simp
  show "odd (f * 7) \<and> 0 < f" if "odd f" for f :: nat
    using that by (cases f) auto
  show "(1::nat) < 7" by simp
qed

lemma pow11_no_overflow:
  assumes "(11::nat) ^ e < 2 ^ 61"
  shows "(11::nat) ^ e * 11 < 2 ^ 64"
proof -
  have "e < 18"
  proof (rule ccontr)
    assume "\<not> e < 18"
    then have "(11::nat) ^ 18 \<le> 11 ^ e" by (intro power_increasing) auto
    moreover have "(2::nat) ^ 61 < 11 ^ 18" by simp
    ultimately show False using assms by linarith
  qed
  then have "(11::nat) ^ Suc e \<le> 11 ^ 18" by (intro power_increasing) auto
  moreover have "(11::nat) ^ 18 < 2 ^ 64" by simp
  ultimately show ?thesis by simp
qed

lemma loop_f11_correct:
  assumes "n \<le> 2 ^ 61" "b \<le> 2 * n"
  shows "\<exists>r. loop_f11 n b 1 = Some r \<and> candidates_ok (comp235711 1) n b r"
proof (rule loop_correct [where body = loop_f117
      and Pre = "\<lambda>f. \<exists>e. f = 11 ^ e" and Gb = comp2357 and p = 11,
      OF _ _ _ _ _ _ _ _ assms(1) _ assms(2)])
  show "loop_f11 n b f =
      (if f < b then loop_f117 n b f \<bind>
           (\<lambda>r. case r of Return v \<Rightarrow> Some (Return v) | Continue b' \<Rightarrow> loop_f11 n b' (wrap (f * 11)))
       else Some (Continue b))" for b f
    by (subst loop_f11.simps) simp
  show "\<exists>r. loop_f117 n b f = Some r \<and> candidates_ok (comp2357 f) n b r"
    if "\<exists>e. f = 11 ^ e" "b \<le> 2 * n" "b \<le> 2 ^ 61 \<or> f = 1" for b f
  proof -
    from that(1) have "odd f" by auto
    with assms(1) show ?thesis using that(2,3) by (rule loop_f117_correct)
  qed
  show "comp235711 f = comp2357 f \<union> comp235711 (f * 11)" for f
    unfolding comp235711_def by (rule mults_split)
  show "f \<le> k" if "k \<in> comp235711 f" for f k
    using that by (rule comp235711_lower)
  show "2 ^ 61 \<in> comp2357 1" by (rule pow2_in_comp2357)
  show "f * 11 < 2 ^ 64" if "\<exists>e. f = 11 ^ e" "f < 2 ^ 61" for f :: nat
    using that pow11_no_overflow by auto
  show "(\<exists>e. f * 11 = 11 ^ e) \<and> 0 < f" if "\<exists>e. f = 11 ^ e" for f :: nat
  proof -
    from that obtain e where "f = 11 ^ e" by blast
    then have "f * 11 = 11 ^ Suc e" "0 < f" by simp_all
    then show ?thesis by blast
  qed
  show "(1::nat) < 11" by simp
  show "\<exists>e. (1::nat) = 11 ^ e" by (rule exI [of _ 0]) simp
  show "b \<le> 2 ^ 61 \<or> (1::nat) = 1" by simp
qed

lemma pow2_between:
  fixes n :: nat
  assumes "1 \<le> n" "n \<le> 2 ^ 63"
  shows "\<exists>k. n \<le> 2 ^ k \<and> 2 ^ k < 2 * n"
proof -
  from while_double_correct [of 1 n] assms obtain k where
    k: "n \<le> 2 ^ k" "\<forall>k'<k. 2 ^ k' < n" by auto
  show ?thesis
  proof (cases k)
    case 0
    then show ?thesis using k(1) assms(1) by (intro exI [of _ 0]) simp
  next
    case (Suc k')
    then have "2 ^ k' < n" using k(2) by simp
    then have "2 ^ k < 2 * n" using Suc by simp
    with k(1) show ?thesis by blast
  qed
qed

lemma search_result:
  fixes n :: nat
  assumes "candidates_ok G n (2 * n) r" "2 ^ k \<in> G" "n \<le> 2 ^ k" "2 ^ k < 2 * n"
  defines "m \<equiv> (case r of Return v \<Rightarrow> v | Continue b \<Rightarrow> b)"
  shows "n \<le> m \<and> m \<in> G \<and> (\<forall>k\<in>G. n \<le> k \<longrightarrow> m \<le> k)"
proof (cases r)
  case (Return v)
  then show ?thesis using assms(1) by (simp add: m_def candidates_ok_def)
next
  case (Continue b)
  then have "b \<le> 2 ^ k" using assms(1-3) by (simp add: candidates_ok_def)
  then have "b \<noteq> 2 * n" using assms(4) by simp
  then show ?thesis using assms(1) Continue by (simp add: m_def candidates_ok_def)
qed


lemma is_prime_dvd_mult:
  assumes "is_prime p" "p dvd a * b"
  shows "p dvd a \<or> p dvd b"
proof (cases "p dvd a")
  case False
  have "gcd p a dvd p" by simp
  with assms(1) have "gcd p a = 1 \<or> gcd p a = p" by (simp add: is_prime_def)
  moreover have "gcd p a \<noteq> p"
  proof
    assume "gcd p a = p"
    then have "p dvd a" by (metis gcd_dvd2)
    with False show False by simp
  qed
  ultimately have "coprime p a" by (simp add: coprime_iff_gcd_eq_1)
  with assms(2) have "p dvd b" by (simp add: coprime_dvd_mult_right_iff)
  then show ?thesis by simp
qed simp

lemma is_prime_dvd_power:
  assumes "is_prime p" "p dvd q ^ k"
  shows "p dvd q"
  using assms(2)
proof (induction k)
  case 0
  then have "p = 1" by simp
  with assms(1) show ?case by (simp add: is_prime_def)
next
  case (Suc k)
  then have "p dvd q * q ^ k" by simp
  with is_prime_dvd_mult [OF assms(1)] Suc.IH show ?case by blast
qed

lemma is_prime_dvd_is_prime:
  assumes "is_prime p" "is_prime q" "p dvd q"
  shows "p = q"
  using assms by (auto simp: is_prime_def)

lemma small_divisor:
  fixes d :: nat
  assumes "d dvd q" "0 < q"
  shows "d \<in> {1..q}"
  using assms by (auto dest: dvd_imp_le intro: Suc_leI dvd_pos_nat)

lemma is_prime_iff: "is_prime p \<longleftrightarrow> 1 < p \<and> (\<forall>d\<in>{2..<p}. \<not> d dvd p)"
proof
  assume p: "is_prime p"
  then have "\<not> d dvd p" if "d \<in> {2..<p}" for d
    using that by (auto simp: is_prime_def)
  with p show "1 < p \<and> (\<forall>d\<in>{2..<p}. \<not> d dvd p)" by (simp add: is_prime_def)
next
  assume r: "1 < p \<and> (\<forall>d\<in>{2..<p}. \<not> d dvd p)"
  have "d = 1 \<or> d = p" if "d dvd p" for d
  proof (rule ccontr)
    assume n: "\<not> (d = 1 \<or> d = p)"
    from that r have "d \<in> {1..p}" by (intro small_divisor) auto
    with n have "d \<in> {2..<p}" by auto
    with r that show False by blast
  qed
  with r show "is_prime p" by (simp add: is_prime_def)
qed

lemma is_prime_2: "is_prime 2" by (simp add: is_prime_iff)
lemma is_prime_3: "is_prime 3" by (simp add: is_prime_iff) code_simp
lemma is_prime_5: "is_prime 5" by (simp add: is_prime_iff) code_simp
lemma is_prime_7: "is_prime 7" by (simp add: is_prime_iff) code_simp
lemma is_prime_11: "is_prime 11" by (simp add: is_prime_iff) code_simp
lemma is_prime_13: "is_prime 13" by (simp add: is_prime_iff) code_simp

lemma prime_divisor_exists:
  "1 < m \<Longrightarrow> \<exists>p. is_prime p \<and> p dvd m"
proof (induction m rule: less_induct)
  case (less m)
  show ?case
  proof (cases "is_prime m")
    case True
    then show ?thesis by auto
  next
    case False
    with less.prems obtain d where d: "d dvd m" "d \<noteq> 1" "d \<noteq> m"
      by (auto simp: is_prime_def)
    then have "d \<in> {1..m}" using less.prems by (intro small_divisor) auto
    with d have "1 < d" "d < m" by auto
    from less.IH [OF this(2,1)] obtain p where "is_prime p" "p dvd d" by blast
    with d(1) show ?thesis by (meson dvd_trans)
  qed
qed


lemma comp235_iff: "m \<in> comp235 1 \<longleftrightarrow> (\<exists>a b c. m = 2 ^ a * 3 ^ b * 5 ^ c)"
proof
  assume "m \<in> comp235 1"
  then obtain c i j where "m = 1 * 5 ^ c * 2 ^ i * 3 ^ j"
    by (auto simp: comp235_def mults_def comp23_def)
  then have "m = 2 ^ i * 3 ^ j * 5 ^ c" by (simp add: ac_simps)
  then show "\<exists>a b c. m = 2 ^ a * 3 ^ b * 5 ^ c" by blast
next
  assume "\<exists>a b c. m = 2 ^ a * 3 ^ b * 5 ^ c"
  then obtain a b c where "m = 2 ^ a * 3 ^ b * 5 ^ c" by blast
  then have "m = 1 * 5 ^ c * 2 ^ a * 3 ^ b" by (simp add: ac_simps)
  then have "m \<in> comp23 (1 * 5 ^ c)" unfolding comp23_def by blast
  then show "m \<in> comp235 1" unfolding comp235_def mults_def by blast
qed

lemma comp235711_iff:
  "m \<in> comp235711 1 \<longleftrightarrow> (\<exists>a b c d e. m = 2 ^ a * 3 ^ b * 5 ^ c * 7 ^ d * 11 ^ e)"
proof
  assume "m \<in> comp235711 1"
  then obtain e d c i j where "m = 1 * 11 ^ e * 7 ^ d * 5 ^ c * 2 ^ i * 3 ^ j"
    by (auto simp: comp235711_def comp2357_def comp235_def mults_def comp23_def)
  then have "m = 2 ^ i * 3 ^ j * 5 ^ c * 7 ^ d * 11 ^ e" by (simp add: ac_simps)
  then show "\<exists>a b c d e. m = 2 ^ a * 3 ^ b * 5 ^ c * 7 ^ d * 11 ^ e" by blast
next
  assume "\<exists>a b c d e. m = 2 ^ a * 3 ^ b * 5 ^ c * 7 ^ d * 11 ^ e"
  then obtain a b c d e where "m = 2 ^ a * 3 ^ b * 5 ^ c * 7 ^ d * 11 ^ e" by blast
  then have "m = 1 * 11 ^ e * 7 ^ d * 5 ^ c * 2 ^ a * 3 ^ b" by (simp add: ac_simps)
  then have "m \<in> comp23 (1 * 11 ^ e * 7 ^ d * 5 ^ c)" unfolding comp23_def by blast
  then have "m \<in> comp235 (1 * 11 ^ e * 7 ^ d)" unfolding comp235_def mults_def by blast
  then have "m \<in> comp2357 (1 * 11 ^ e)" unfolding comp2357_def mults_def by blast
  then show "m \<in> comp235711 1" unfolding comp235711_def mults_def by blast
qed

lemma comp235_mult:
  assumes "m \<in> comp235 1" "q \<in> {2, 3, 5}"
  shows "q * m \<in> comp235 1"
proof -
  from assms(1) obtain a b c where m: "m = 2 ^ a * 3 ^ b * 5 ^ c"
    by (auto simp only: comp235_iff)
  from assms(2) consider "q = 2" | "q = 3" | "q = 5" by auto
  then have "\<exists>a b c. q * m = 2 ^ a * 3 ^ b * 5 ^ c"
  proof cases
    case 1
    then have "q * m = 2 ^ Suc a * 3 ^ b * 5 ^ c" using m by simp
    then show ?thesis by blast
  next
    case 2
    then have "q * m = 2 ^ a * 3 ^ Suc b * 5 ^ c" using m by simp
    then show ?thesis by blast
  next
    case 3
    then have "q * m = 2 ^ a * 3 ^ b * 5 ^ Suc c" using m by simp
    then show ?thesis by blast
  qed
  then show ?thesis by (simp only: comp235_iff)
qed

lemma comp235711_mult:
  assumes "m \<in> comp235711 1" "q \<in> {2, 3, 5, 7, 11}"
  shows "q * m \<in> comp235711 1"
proof -
  from assms(1) obtain a b c d e where m: "m = 2 ^ a * 3 ^ b * 5 ^ c * 7 ^ d * 11 ^ e"
    by (auto simp only: comp235711_iff)
  from assms(2) consider "q = 2" | "q = 3" | "q = 5" | "q = 7" | "q = 11" by auto
  then have "\<exists>a b c d e. q * m = 2 ^ a * 3 ^ b * 5 ^ c * 7 ^ d * 11 ^ e"
  proof cases
    case 1
    then have "q * m = 2 ^ Suc a * 3 ^ b * 5 ^ c * 7 ^ d * 11 ^ e" using m by simp
    then show ?thesis by blast
  next
    case 2
    then have "q * m = 2 ^ a * 3 ^ Suc b * 5 ^ c * 7 ^ d * 11 ^ e" using m by simp
    then show ?thesis by blast
  next
    case 3
    then have "q * m = 2 ^ a * 3 ^ b * 5 ^ Suc c * 7 ^ d * 11 ^ e" using m by simp
    then show ?thesis by blast
  next
    case 4
    then have "q * m = 2 ^ a * 3 ^ b * 5 ^ c * 7 ^ Suc d * 11 ^ e" using m by simp
    then show ?thesis by blast
  next
    case 5
    then have "q * m = 2 ^ a * 3 ^ b * 5 ^ c * 7 ^ d * 11 ^ Suc e" using m by simp
    then show ?thesis by blast
  qed
  then show ?thesis by (simp only: comp235711_iff)
qed

lemma only_prime_factors_closed:
  assumes one: "1 \<in> G" and mult: "\<And>m q. m \<in> G \<Longrightarrow> q \<in> S \<Longrightarrow> q * m \<in> G"
    and out: "is_prime r" "r \<notin> S"
  shows "only_prime_factors S m \<Longrightarrow> m \<in> G"
proof (induction m rule: less_induct)
  case (less m)
  have "m \<noteq> 0"
  proof
    assume "m = 0"
    then have "r dvd m" by simp
    with less.prems out show False by (auto simp: only_prime_factors_def)
  qed
  show ?case
  proof (cases "m = 1")
    case True
    then show ?thesis using one by simp
  next
    case False
    with \<open>m \<noteq> 0\<close> have "1 < m" by simp
    from prime_divisor_exists [OF this] obtain p where p: "is_prime p" "p dvd m" by blast
    then have pS: "p \<in> S" using less.prems by (auto simp: only_prime_factors_def)
    from p(2) obtain k where k: "m = p * k" by (auto simp: dvd_def)
    have "1 < p" using p(1) by (simp add: is_prime_def)
    have "0 < k" using k \<open>m \<noteq> 0\<close> by (cases k) auto
    then have "k * 1 < k * p" using \<open>1 < p\<close> by (intro mult_strict_left_mono) auto
    then have "k < m" using k by (simp add: mult.commute)
    moreover have "only_prime_factors S k"
      using less.prems k by (auto simp: only_prime_factors_def)
    ultimately have "k \<in> G" by (rule less.IH)
    then show ?thesis using mult pS k by simp
  qed
qed

lemma only_prime_factors_235:
  "only_prime_factors {2, 3, 5} m \<longleftrightarrow> (\<exists>a b c. m = 2 ^ a * 3 ^ b * 5 ^ c)"
proof
  assume "only_prime_factors {2, 3, 5} m"
  then have "m \<in> comp235 1"
  proof (rule only_prime_factors_closed [rotated 4])
    show "1 \<in> comp235 1" using pow2_in_comp235 [of 0] by simp
    show "is_prime 7" by (rule is_prime_7)
    show "7 \<notin> {2, 3, 5::nat}" by simp
  qed (rule comp235_mult)
  then show "\<exists>a b c. m = 2 ^ a * 3 ^ b * 5 ^ c" by (simp only: comp235_iff)
next
  assume "\<exists>a b c. m = 2 ^ a * 3 ^ b * 5 ^ c"
  then obtain a b c where m: "m = 2 ^ a * 3 ^ b * 5 ^ c" by blast
  show "only_prime_factors {2, 3, 5} m"
    unfolding only_prime_factors_def
  proof (intro allI impI)
    fix p assume p: "is_prime p \<and> p dvd m"
    then have "p dvd 2 ^ a \<or> p dvd 3 ^ b \<or> p dvd 5 ^ c"
      unfolding m using is_prime_dvd_mult by blast
    then have "p dvd 2 \<or> p dvd 3 \<or> p dvd 5"
      using is_prime_dvd_power p by blast
    then show "p \<in> {2, 3, 5}"
      using is_prime_dvd_is_prime [OF _ is_prime_2] is_prime_dvd_is_prime [OF _ is_prime_3]
        is_prime_dvd_is_prime [OF _ is_prime_5] p by blast
  qed
qed

lemma only_prime_factors_235711:
  "only_prime_factors {2, 3, 5, 7, 11} m \<longleftrightarrow>
     (\<exists>a b c d e. m = 2 ^ a * 3 ^ b * 5 ^ c * 7 ^ d * 11 ^ e)"
proof
  assume "only_prime_factors {2, 3, 5, 7, 11} m"
  then have "m \<in> comp235711 1"
  proof (rule only_prime_factors_closed [rotated 4])
    show "1 \<in> comp235711 1" using pow2_in_comp235711 [of 0] by simp
    show "is_prime 13" by (rule is_prime_13)
    show "13 \<notin> {2, 3, 5, 7, 11::nat}" by simp
  qed (rule comp235711_mult)
  then show "\<exists>a b c d e. m = 2 ^ a * 3 ^ b * 5 ^ c * 7 ^ d * 11 ^ e"
    by (simp only: comp235711_iff)
next
  assume "\<exists>a b c d e. m = 2 ^ a * 3 ^ b * 5 ^ c * 7 ^ d * 11 ^ e"
  then obtain a b c d e where m: "m = 2 ^ a * 3 ^ b * 5 ^ c * 7 ^ d * 11 ^ e" by blast
  show "only_prime_factors {2, 3, 5, 7, 11} m"
    unfolding only_prime_factors_def
  proof (intro allI impI)
    fix p assume p: "is_prime p \<and> p dvd m"
    then have "p dvd 2 ^ a \<or> p dvd 3 ^ b \<or> p dvd 5 ^ c \<or> p dvd 7 ^ d \<or> p dvd 11 ^ e"
      unfolding m using is_prime_dvd_mult by blast
    then have "p dvd 2 \<or> p dvd 3 \<or> p dvd 5 \<or> p dvd 7 \<or> p dvd 11"
      using is_prime_dvd_power p by blast
    then show "p \<in> {2, 3, 5, 7, 11}"
      using is_prime_dvd_is_prime [OF _ is_prime_2] is_prime_dvd_is_prime [OF _ is_prime_3]
        is_prime_dvd_is_prime [OF _ is_prime_5] is_prime_dvd_is_prime [OF _ is_prime_7]
        is_prime_dvd_is_prime [OF _ is_prime_11] p by blast
  qed
qed


lemma small_235711:
  assumes "1 \<le> n" "n \<le> 12"
  shows "n \<in> comp235711 1"
proof -
  note m = comp235711_mult
  have c1: "1 \<in> comp235711 1" using pow2_in_comp235711 [of 0] by simp
  have c2: "2 \<in> comp235711 1" using m [OF c1, of 2] by simp
  have c3: "3 \<in> comp235711 1" using m [OF c1, of 3] by simp
  have c4: "4 \<in> comp235711 1" using m [OF c2, of 2] by simp
  have c5: "5 \<in> comp235711 1" using m [OF c1, of 5] by simp
  have c6: "6 \<in> comp235711 1" using m [OF c3, of 2] by simp
  have c7: "7 \<in> comp235711 1" using m [OF c1, of 7] by simp
  have c8: "8 \<in> comp235711 1" using m [OF c4, of 2] by simp
  have c9: "9 \<in> comp235711 1" using m [OF c3, of 3] by simp
  have c10: "10 \<in> comp235711 1" using m [OF c5, of 2] by simp
  have c11: "11 \<in> comp235711 1" using m [OF c1, of 11] by simp
  have c12: "12 \<in> comp235711 1" using m [OF c6, of 2] by simp
  have "n \<in> {1, 2, 3, 4, 5, 6, 7, 8, 9, 10, 11, 12}"
    using assms by (simp only: insert_iff empty_iff) presburger
  then show ?thesis
    using c1 c2 c3 c4 c5 c6 c7 c8 c9 c10 c11 c12 by auto
qed

lemma small_235:
  assumes "1 \<le> n" "n \<le> 6"
  shows "n \<in> comp235 1"
proof -
  note m = comp235_mult
  have c1: "1 \<in> comp235 1" using pow2_in_comp235 [of 0] by simp
  have c2: "2 \<in> comp235 1" using m [OF c1, of 2] by simp
  have c3: "3 \<in> comp235 1" using m [OF c1, of 3] by simp
  have c4: "4 \<in> comp235 1" using m [OF c2, of 2] by simp
  have c5: "5 \<in> comp235 1" using m [OF c1, of 5] by simp
  have c6: "6 \<in> comp235 1" using m [OF c3, of 2] by simp
  have "n \<in> {1, 2, 3, 4, 5, 6}"
    using assms by (simp only: insert_iff empty_iff) presburger
  then show ?thesis
    using c1 c2 c3 c4 c5 c6 by auto
qed


lemma only_prime_factors_comp235711:
  "only_prime_factors {2, 3, 5, 7, 11} m \<longleftrightarrow> m \<in> comp235711 1"
  by (simp only: only_prime_factors_235711 comp235711_iff)

lemma only_prime_factors_comp235:
  "only_prime_factors {2, 3, 5} m \<longleftrightarrow> m \<in> comp235 1"
  by (simp only: only_prime_factors_235 comp235_iff)

lemma good_size_cmplx_smallest:
  assumes "1 \<le> n" "n \<le> 2 ^ 61"
  shows "\<exists>m. good_size_cmplx n = Some m \<and>
    smallest_from (only_prime_factors {2, 3, 5, 7, 11}) n m"
proof (cases "n \<le> 12")
  case True
  with assms(1) have "n \<in> comp235711 1" by (intro small_235711)
  then have "only_prime_factors {2, 3, 5, 7, 11} n"
    by (simp only: only_prime_factors_comp235711)
  moreover have "good_size_cmplx n = Some n"
    using True by (simp add: good_size_cmplx_def)
  ultimately show ?thesis by (simp add: smallest_from_def)
next
  case False
  have w: "wrap (2 * n) = 2 * n" using assms(2) by (intro wrap_id) simp
  from loop_f11_correct [OF assms(2) order_refl] obtain r where
    r: "loop_f11 n (2 * n) 1 = Some r" "candidates_ok (comp235711 1) n (2 * n) r" by blast
  define m where "m = (case r of Return v \<Rightarrow> v | Continue b \<Rightarrow> b)"
  have "n \<le> 2 ^ 63" using assms(2) by (rule order_trans) simp
  from pow2_between [OF assms(1) this] obtain k where k: "n \<le> 2 ^ k" "2 ^ k < 2 * n"
    by blast
  from search_result [OF r(2) pow2_in_comp235711 k]
  have "n \<le> m" "m \<in> comp235711 1" "\<forall>k\<in>comp235711 1. n \<le> k \<longrightarrow> m \<le> k"
    by (simp_all add: m_def)
  then have "smallest_from (only_prime_factors {2, 3, 5, 7, 11}) n m"
    unfolding smallest_from_def only_prime_factors_comp235711 by blast
  moreover have "good_size_cmplx n = Some m"
    using False w r(1) by (simp add: good_size_cmplx_def m_def)
  ultimately show ?thesis by blast
qed

lemma good_size_real_smallest:
  assumes "1 \<le> n" "n \<le> 2 ^ 61"
  shows "\<exists>m. good_size_real n = Some m \<and> smallest_from (only_prime_factors {2, 3, 5}) n m"
proof (cases "n \<le> 6")
  case True
  with assms(1) have "n \<in> comp235 1" by (intro small_235)
  then have "only_prime_factors {2, 3, 5} n"
    by (simp only: only_prime_factors_comp235)
  moreover have "good_size_real n = Some n"
    using True by (simp add: good_size_real_def)
  ultimately show ?thesis by (simp add: smallest_from_def)
next
  case False
  have w: "wrap (2 * n) = 2 * n" using assms(2) by (intro wrap_id) simp
  have "odd (1::nat)" by simp
  from loop_f5_correct [OF assms(2) this order_refl] obtain r where
    r: "loop_f5 n (2 * n) 1 = Some r" "candidates_ok (comp235 1) n (2 * n) r" by blast
  define m where "m = (case r of Return v \<Rightarrow> v | Continue b \<Rightarrow> b)"
  have "n \<le> 2 ^ 63" using assms(2) by (rule order_trans) simp
  from pow2_between [OF assms(1) this] obtain k where k: "n \<le> 2 ^ k" "2 ^ k < 2 * n"
    by blast
  from search_result [OF r(2) pow2_in_comp235 k]
  have "n \<le> m" "m \<in> comp235 1" "\<forall>k\<in>comp235 1. n \<le> k \<longrightarrow> m \<le> k"
    by (simp_all add: m_def)
  then have "smallest_from (only_prime_factors {2, 3, 5}) n m"
    unfolding smallest_from_def only_prime_factors_comp235 by blast
  moreover have "good_size_real n = Some m"
    using False w r(1) by (simp add: good_size_real_def m_def)
  ultimately show ?thesis by blast
qed


lemmas good_size_unfold = good_size_def size_max_def good_size_cmplx_def good_size_real_def
  while_double.simps for_ever.simps loop_f1175.simps loop_f117.simps loop_f11.simps
  loop_f5.simps wrap_def

lemma good_size_1000: "good_size 1000 False = Some (Inr 1000)"
  by (simp add: good_size_unfold)

lemma good_size_1001: "good_size 1001 False = Some (Inr 1008)"
  by (simp add: good_size_unfold)

lemma good_size_1001_real: "good_size 1001 True = Some (Inr 1024)"
  by (simp add: good_size_unfold)

lemma not_only_prime_factors_0: "\<not> only_prime_factors {2, 3, 5, 7, 11} 0"
  using is_prime_13 by (auto simp: only_prime_factors_def)

lemma not_only_prime_factors_0_real: "\<not> only_prime_factors {2, 3, 5} 0"
  using is_prime_13 by (auto simp: only_prime_factors_def)

text \<open>
  Claim C1, as the code has it. For every \<open>n\<close> from 1 up to \<open>2 ^ 61\<close> (a range that
  contains every positive length the Python entry point admits, and in which no
  \<open>size_t\<close> operation of the search wraps around), \<open>good_size_cmplx n\<close> returns the
  smallest \<open>m \<ge> n\<close> whose prime factors all lie in \<open>{2, 3, 5, 7, 11}\<close>, and
  \<open>good_size_real n\<close> returns the smallest \<open>m \<ge> n\<close> whose prime factors all lie in
  \<open>{2, 3, 5}\<close>. In particular \<open>good_size(1000, real=false) = 1000\<close>,
  \<open>good_size(1001, real=false) = 1008\<close> and \<open>good_size(1001, real=true) = 1024\<close>.
\<close>

theorem good_size_smallest:
  assumes "1 \<le> n" "n \<le> 2 ^ 61"
  shows "(\<exists>m. good_size_cmplx n = Some m \<and>
            smallest_from (only_prime_factors {2, 3, 5, 7, 11}) n m) \<and>
         (\<exists>m. good_size_real n = Some m \<and>
            smallest_from (only_prime_factors {2, 3, 5}) n m) \<and>
         good_size 1000 False = Some (Inr 1000) \<and>
         good_size 1001 False = Some (Inr 1008) \<and>
         good_size 1001 True = Some (Inr 1024)"
  using good_size_cmplx_smallest [OF assms] good_size_real_smallest [OF assms]
    good_size_1000 good_size_1001 good_size_1001_real by blast

text \<open>The instance of the theorem at \<open>n = 1001\<close>.\<close>

theorem good_size_smallest_witness:
  "smallest_from (only_prime_factors {2, 3, 5, 7, 11}) 1001 1008 \<and>
   smallest_from (only_prime_factors {2, 3, 5}) 1001 1024"
proof -
  have c: "good_size_cmplx 1001 = Some 1008" by (simp add: good_size_unfold)
  have r: "good_size_real 1001 = Some 1024" by (simp add: good_size_unfold)
  have "(1::nat) \<le> 1001" "(1001::nat) \<le> 2 ^ 61" by simp_all
  from good_size_smallest [OF this] show ?thesis by (simp add: c r)
qed

text \<open>
  Claim C1 as stated ("for every \<open>n\<close>") fails at \<open>n = 0\<close>: the guard
  \<open>if (n<=12) return n\<close> returns 0, which every prime divides, while the smallest
  number from 0 upwards with prime factors in \<open>{2, 3, 5, 7, 11}\<close> only is 1.
\<close>

theorem good_size_cmplx_zero_counterexample:
  "good_size_cmplx 0 = Some 0 \<and>
   \<not> smallest_from (only_prime_factors {2, 3, 5, 7, 11}) 0 0 \<and>
   smallest_from (only_prime_factors {2, 3, 5, 7, 11}) 0 1"
proof -
  have "only_prime_factors {2, 3, 5, 7, 11} 1"
    by (auto simp: only_prime_factors_def is_prime_def)
  moreover have "k = 0 \<or> 1 \<le> k" for k :: nat by auto
  ultimately have "smallest_from (only_prime_factors {2, 3, 5, 7, 11}) 0 1"
    using not_only_prime_factors_0 unfolding smallest_from_def by (metis le0)
  then show ?thesis
    using not_only_prime_factors_0 by (simp add: good_size_cmplx_def smallest_from_def)
qed

subsection \<open>The Python entry point\<close>

lemma good_size_admitted:
  assumes "0 \<le> n" "n - 1 \<le> int (size_max div 11)"
  shows "good_size n real_flag =
    map_option Inr (if real_flag then good_size_real (nat n) else good_size_cmplx (nat n))"
proof -
  have "n < 2 ^ 63" using assms(2) by (simp add: size_max_def)
  with assms show ?thesis by (simp add: good_size_def)
qed

lemma good_size_variant_smallest:
  assumes "1 \<le> n" "n \<le> 2 ^ 61"
  shows "\<exists>m. (if real_flag then good_size_real n else good_size_cmplx n) = Some m \<and>
    smallest_from (only_prime_factors (if real_flag then {2, 3, 5} else {2, 3, 5, 7, 11})) n m"
  using good_size_cmplx_smallest [OF assms] good_size_real_smallest [OF assms]
  by (cases real_flag) simp_all

lemma good_size_variant_zero:
  "(if real_flag then good_size_real 0 else good_size_cmplx 0) = Some 0"
  by (simp add: good_size_real_def good_size_cmplx_def)

text \<open>
  Claim C2, as the code has it, for the Python entry point in both variants. Let
  \<open>n \<ge> 0\<close> with \<open>n + 1\<close> still admitted (\<open>n \<le> SIZE_MAX / 11\<close>). Then
  \<open>good_size(n)\<close> and \<open>good_size(n+1)\<close> both return, \<open>good_size(n+1) \<ge> good_size(n)\<close>,
  \<open>good_size(n) \<ge> n\<close>, \<open>good_size(n+1) \<ge> n+1\<close>, and \<open>good_size(n+1)\<close> has only
  allowed prime factors: so every admitted positive length, at or below the identity
  threshold or above it, is mapped to a product of allowed primes. At \<open>n = 0\<close> the
  result is 0.
\<close>

theorem good_size_monotone:
  assumes "0 \<le> n" "n \<le> int (size_max div 11)"
  shows "\<exists>m m'. good_size n real_flag = Some (Inr m) \<and>
           good_size (n + 1) real_flag = Some (Inr m') \<and>
           m \<le> m' \<and> n \<le> int m \<and> n + 1 \<le> int m' \<and>
           only_prime_factors (if real_flag then {2, 3, 5} else {2, 3, 5, 7, 11}) m' \<and>
           (1 \<le> n \<longrightarrow> only_prime_factors (if real_flag then {2, 3, 5} else {2, 3, 5, 7, 11}) m) \<and>
           (n = 0 \<longrightarrow> m = 0)"
proof -
  let ?P = "only_prime_factors (if real_flag then {2, 3, 5} else {2, 3, 5, 7, 11})"
  let ?g = "\<lambda>k. if real_flag then good_size_real k else good_size_cmplx k"
  have bound: "nat n + 1 \<le> 2 ^ 61" using assms by (simp add: size_max_def)
  have 1: "good_size n real_flag = map_option Inr (?g (nat n))"
    using assms by (intro good_size_admitted) simp_all
  have 2: "good_size (n + 1) real_flag = map_option Inr (?g (nat n + 1))"
    using assms good_size_admitted [of "n + 1" real_flag] by (simp add: nat_add_distrib)
  from good_size_variant_smallest [of "nat n + 1" real_flag] bound
  obtain m' where m': "?g (nat n + 1) = Some m'" "smallest_from ?P (nat n + 1) m'"
    by auto
  show ?thesis
  proof (cases "n = 0")
    case True
    then have "?g (nat n) = Some 0" by (simp add: good_size_real_def good_size_cmplx_def)
    with 1 2 m' True show ?thesis by (simp add: smallest_from_def)
  next
    case False
    with assms(1) have "1 \<le> nat n" by simp
    from good_size_variant_smallest [OF this, of real_flag] bound
    obtain m where m: "?g (nat n) = Some m" "smallest_from ?P (nat n) m"
      by auto
    have le: "nat n \<le> m" "nat n + 1 \<le> m'" and P: "?P m" "?P m'"
      using m(2) m'(2) by (simp_all add: smallest_from_def)
    have "m \<le> m'" using m(2) le(2) P(2) by (simp add: smallest_from_def)
    moreover have "n \<le> int m" "n + 1 \<le> int m'"
      using le assms(1) by linarith+
    ultimately show ?thesis using 1 2 m(1) m'(1) False P by simp
  qed
qed

text \<open>The instance at \<open>n = 1000\<close>, complex variant: 1000 and 1008.\<close>

theorem good_size_monotone_witness:
  "\<exists>m m'. good_size 1000 False = Some (Inr m) \<and> good_size 1001 False = Some (Inr m') \<and>
     m \<le> m' \<and> 1000 \<le> m \<and> 1001 \<le> m' \<and>
     only_prime_factors {2, 3, 5, 7, 11} m' \<and> only_prime_factors {2, 3, 5, 7, 11} m"
proof -
  have "(0::int) \<le> 1000" "(1000::int) \<le> int (size_max div 11)"
    by (simp_all add: size_max_def)
  from good_size_monotone [OF this, of False] show ?thesis by simp
qed

text \<open>
  Claim C2 as stated fails at \<open>n = 0\<close>, an input at or below the identity threshold
  that the entry point admits (it rejects only \<open>n < 0\<close>): the result 0 is divisible by
  every prime, in particular by 13.
\<close>

theorem good_size_zero_counterexample:
  "good_size 0 True = Some (Inr 0) \<and> \<not> only_prime_factors {2, 3, 5} 0 \<and>
   good_size 0 False = Some (Inr 0) \<and> \<not> only_prime_factors {2, 3, 5, 7, 11} 0"
  using not_only_prime_factors_0 not_only_prime_factors_0_real
  by (simp add: good_size_def good_size_real_def good_size_cmplx_def size_max_def)

section \<open>Pass construction for prime lengths\<close>

lemma and_low_bits: "(N::nat) AND (2 ^ k - 1) = N mod 2 ^ k"
proof -
  have "N AND mask k = take_bit k N" by (simp only: take_bit_eq_mask)
  then show ?thesis by (simp only: mask_eq_exp_minus_1 take_bit_eq_mod)
qed

lemma odd_and_low_bits:
  assumes "odd (N::nat)" "0 < k"
  shows "N AND (2 ^ k - 1) \<noteq> 0"
proof
  assume "N AND (2 ^ k - 1) = 0"
  then have "N mod 2 ^ k = 0" by (simp only: and_low_bits)
  then have "2 ^ k dvd N" by (simp only: mod_eq_0_iff_dvd)
  moreover have "(2::nat) dvd 2 ^ k" using assms(2) by (cases k) auto
  ultimately have "2 dvd N" by (rule dvd_trans [rotated])
  with assms(1) show False by simp
qed

lemma odd_and_7: "odd (N::nat) \<Longrightarrow> N AND 7 \<noteq> 0"
  using odd_and_low_bits [of N 3] by simp

lemma odd_and_3: "odd (N::nat) \<Longrightarrow> N AND 3 \<noteq> 0"
  using odd_and_low_bits [of N 2] by simp

lemma odd_and_1: "odd (N::nat) \<Longrightarrow> N AND 1 \<noteq> 0"
  using odd_and_low_bits [of N 1] by simp

lemma is_prime_odd:
  assumes "is_prime p" "p \<noteq> 2"
  shows "odd p"
proof
  assume "even p"
  then have "2 dvd p" by simp
  with assms(1) have "(2::nat) = 1 \<or> 2 = p" unfolding is_prime_def by blast
  with assms(2) show False by simp
qed

lemma for_divisor_prime:
  assumes "is_prime N" "N \<le> 2 ^ 60"
  shows "1 < d \<Longrightarrow> d \<le> 2 ^ 30 + 2 \<Longrightarrow> for_divisor N d fs = Some (N, fs)"
proof (induction "N - d" arbitrary: d rule: less_induct)
  case less
  have "d * d \<le> (2 ^ 30 + 2) * (2 ^ 30 + 2)"
    using less.prems(2) by (intro mult_le_mono)
  also have "\<dots> < (2::nat) ^ 64" by simp
  finally have w: "wrap (d * d) = d * d" by (rule wrap_id)
  show ?case
  proof (cases "d * d \<le> N")
    case False
    then show ?thesis using w by (subst for_divisor.simps) simp
  next
    case True
    have "d * 2 \<le> d * d" using less.prems(1) by (intro mult_le_mono2) simp
    with True less.prems(1) have dN: "d < N" by linarith
    have "\<not> d dvd N"
    proof
      assume "d dvd N"
      with assms(1) have "d = 1 \<or> d = N" unfolding is_prime_def by blast
      with dN less.prems(1) show False by simp
    qed
    then have "N mod d \<noteq> 0" by (simp add: mod_eq_0_iff_dvd)
    then have wd: "while_divides N d fs = Some (N, fs)"
      by (subst while_divides.simps) simp
    have d30: "d \<le> 2 ^ 30"
    proof (rule ccontr)
      assume "\<not> d \<le> 2 ^ 30"
      then have "2 ^ 30 < d" by simp
      then have "(2 ^ 30) * (2 ^ 30) < d * d" by (intro mult_strict_mono) auto
      with True assms(2) show False by simp
    qed
    then have w2: "wrap (d + 2) = d + 2" by (intro wrap_id) simp
    have "N - (d + 2) < N - d" using dN by simp
    then have "for_divisor N (d + 2) fs = Some (N, fs)"
      using d30 less.prems(1) by (intro less.hyps) simp_all
    then show ?thesis using True w w2 wd by (subst for_divisor.simps) simp
  qed
qed

lemma factorize_prime:
  assumes "is_prime N" "N \<noteq> 2" "N \<le> 2 ^ 60"
  shows "factorize N = Some (Inr [N])"
proof -
  have o: "odd N" using assms(1,2) by (rule is_prime_odd)
  have N1: "1 < N" using assms(1) by (simp add: is_prime_def)
  have 1: "while_8 N [] = Some (N, [])"
    using odd_and_7 [OF o] by (subst while_8.simps) simp
  have 2: "while_4 N [] = Some (N, [])"
    using odd_and_3 [OF o] by (subst while_4.simps) simp
  have 3: "if_even N [] = (N, [])"
    using odd_and_1 [OF o] by (simp add: if_even_def)
  have 4: "for_divisor N 3 [] = Some (N, [])"
    using assms(1,3) by (rule for_divisor_prime) simp_all
  show ?thesis using N1 1 2 3 4 by (simp add: factorize_def)
qed

lemma cfftpblue_ip2:
  assumes "1 \<le> ip" "ip \<le> 2 ^ 60"
  shows "\<exists>ip2. cfftpblue ip = Some (Cfftpblue ip ip2) \<and>
    smallest_from (only_prime_factors {2, 3, 5, 7, 11}) (2 * ip - 1) ip2"
proof -
  have "wrap (ip * 2) = ip * 2" using assms(2) by (intro wrap_id) simp
  moreover have "wrap_sub (ip * 2) 1 = 2 * ip - 1"
  proof -
    have e: "ip * 2 + 2 ^ 64 - 1 = (2 * ip - 1) + 2 ^ 64" using assms(1) by simp
    have lt: "2 * ip - 1 < 2 ^ 64" using assms(2) by simp
    have "wrap_sub (ip * 2) 1 = ((2 * ip - 1) + 2 ^ 64) mod 2 ^ 64"
      unfolding wrap_sub_def e ..
    also have "\<dots> = (2 * ip - 1) mod 2 ^ 64" by (rule mod_add_self2)
    also have "\<dots> = 2 * ip - 1" using lt by (rule mod_less)
    finally show ?thesis .
  qed
  moreover have "\<exists>m. good_size_cmplx (2 * ip - 1) = Some m \<and>
      smallest_from (only_prime_factors {2, 3, 5, 7, 11}) (2 * ip - 1) m"
    using assms by (intro good_size_cmplx_smallest) simp_all
  ultimately show ?thesis by (auto simp: cfftpblue_def)
qed

text \<open>
  Claim C3. For a prime length \<open>ip\<close> without a specialised radix pass (within
  \<open>ip \<le> 2 ^ 60\<close>, where the trial division and \<open>2 * ip - 1\<close> stay inside \<open>size_t\<close>, and for
  a lane count that is a power of two), \<open>make_pass\<close> builds the generic odd-radix pass
  when \<open>ip < 110\<close> and the Bluestein pass when \<open>ip \<ge> 110\<close>, whatever \<open>l1\<close>, \<open>ido\<close> and
  \<open>vectorize\<close> are; and the Bluestein pass's \<open>ip2\<close> is the smallest number from
  \<open>2 * ip - 1\<close> upwards whose prime factors all lie in \<open>{2, 3, 5, 7, 11}\<close>. The threshold
  110 lies between 100 and 135.
\<close>

theorem make_pass_prime:
  assumes "is_prime ip" "ip \<notin> {2, 3, 4, 5, 7, 8, 11}" "ip \<le> 2 ^ 60" "vlen = 2 ^ k"
  shows "(ip < 110 \<longrightarrow> make_pass vlen l1 ido ip vectorize = Some (Inr (Cfftpg ip))) \<and>
         (110 \<le> ip \<longrightarrow>
            (\<exists>ip2. make_pass vlen l1 ido ip vectorize = Some (Inr (Cfftpblue ip ip2)) \<and>
               smallest_from (only_prime_factors {2, 3, 5, 7, 11}) (2 * ip - 1) ip2)) \<and>
         (100::nat) \<le> 110 \<and> (110::nat) \<le> 135"
proof -
  have o: "odd ip" using assms(1,2) by (intro is_prime_odd) auto
  have ip1: "1 < ip" using assms(1) by (simp add: is_prime_def)
  have novec: "\<not> (vlen > 1 \<and> ip AND (vlen - 1) = 0)"
  proof
    assume a: "vlen > 1 \<and> ip AND (vlen - 1) = 0"
    then have "0 < k" using assms(4) by (cases k) auto
    from odd_and_low_bits [OF o this] a assms(4) show False by simp
  qed
  have f: "factorize ip = Some (Inr [ip])"
    using assms(1-3) by (intro factorize_prime) auto
  from cfftpblue_ip2 [of ip] ip1 assms(3) obtain ip2 where
    b: "cfftpblue ip = Some (Cfftpblue ip ip2)"
       "smallest_from (only_prime_factors {2, 3, 5, 7, 11}) (2 * ip - 1) ip2"
    by auto
  have "make_pass vlen l1 ido ip vectorize =
      (if ip < 110 then Some (Inr (Cfftpg ip)) else Some (Inr (Cfftpblue ip ip2)))"
    using novec ip1 f b(1) assms(2) by (simp add: make_pass_def)
  with b(2) show ?thesis by auto
qed

lemma is_prime_113: "is_prime 113"
  by (simp add: is_prime_iff) code_simp

text \<open>
  The instances at \<open>ip = 13\<close> (generic pass) and \<open>ip = 113\<close> (Bluestein pass with
  \<open>ip2 = 225\<close>), for four lanes.
\<close>

theorem make_pass_prime_witness:
  "make_pass 4 1 1 13 True = Some (Inr (Cfftpg 13)) \<and>
   make_pass 4 1 1 113 True = Some (Inr (Cfftpblue 113 225)) \<and>
   smallest_from (only_prime_factors {2, 3, 5, 7, 11}) 225 225"
proof -
  have e: "make_pass 4 1 1 113 True = Some (Inr (Cfftpblue 113 225))"
    by (simp add: make_pass_def factorize_def while_8.simps while_4.simps if_even_def
        while_divides.simps for_divisor.simps cfftpblue_def wrap_sub_def good_size_unfold)
  have v: "(4::nat) = 2 ^ 2" by simp
  have "(13::nat) \<notin> {2, 3, 4, 5, 7, 8, 11}" "(13::nat) \<le> 2 ^ 60" by simp_all
  from make_pass_prime [OF is_prime_13 this v, of 1 1 True]
  have a: "make_pass 4 1 1 13 True = Some (Inr (Cfftpg 13))" by simp
  have "(113::nat) \<notin> {2, 3, 4, 5, 7, 8, 11}" "(113::nat) \<le> 2 ^ 60" by simp_all
  from make_pass_prime [OF is_prime_113 this v, of 1 1 True]
  obtain ip2 where b: "make_pass 4 1 1 113 True = Some (Inr (Cfftpblue 113 ip2))"
    "smallest_from (only_prime_factors {2, 3, 5, 7, 11}) (2 * 113 - 1) ip2" by auto
  from b(1) e have "ip2 = 225" by simp
  with b(2) have "smallest_from (only_prime_factors {2, 3, 5, 7, 11}) 225 225" by simp
  with a e show ?thesis by simp
qed

section \<open>Normalisation counts and \<open>lastsize\<close>\<close>

lemma prod_list_pos:
  fixes h :: "'a \<Rightarrow> nat"
  assumes "\<forall>a\<in>set xs. 1 \<le> h a"
  shows "1 \<le> prod_list (map h xs)"
  using assms by (induction xs) (auto simp: Suc_le_eq)

lemma norm_count_fold:
  fixes g h :: "nat \<Rightarrow> nat"
  assumes "\<forall>a\<in>set axes. g a \<le> h a \<and> 1 \<le> h a"
    and "acc * prod_list (map h axes) < 2 ^ 64"
  shows "fold (\<lambda>a N. wrap (N * wrap (g a))) axes acc = acc * prod_list (map g axes)"
  using assms
proof (induction axes arbitrary: acc)
  case Nil
  then show ?case by simp
next
  case (Cons a axes)
  have rest: "1 \<le> prod_list (map h axes)"
    using Cons.prems(1) by (intro prod_list_pos) simp
  have ha: "g a \<le> h a" "1 \<le> h a" using Cons.prems(1) by simp_all
  have bound: "acc * (h a * prod_list (map h axes)) < 2 ^ 64"
    using Cons.prems(2) by simp
  show ?case
  proof (cases "acc = 0")
    case True
    have "fold (\<lambda>a N. wrap (N * wrap (g a))) axes 0 = 0 * prod_list (map g axes)"
      using Cons.prems(1) by (intro Cons.IH) simp_all
    then show ?thesis using True by (simp add: wrap_def)
  next
    case False
    then have "1 \<le> acc" by simp
    have bound': "acc * h a * prod_list (map h axes) < 2 ^ 64"
      using bound by (simp only: mult.assoc)
    have "acc * h a * 1 \<le> acc * h a * prod_list (map h axes)"
      using rest by (rule mult_le_mono2)
    then have "acc * h a \<le> acc * h a * prod_list (map h axes)"
      by (simp only: mult_1_right)
    with bound' have 1: "acc * h a < 2 ^ 64" by linarith
    have "1 * h a \<le> acc * h a" using \<open>1 \<le> acc\<close> by (rule mult_le_mono1)
    then have "h a \<le> acc * h a" by (simp only: mult_1)
    with 1 ha(1) have "g a < 2 ^ 64" by linarith
    then have w1: "wrap (g a) = g a" by (rule wrap_id)
    have "acc * g a \<le> acc * h a" using ha(1) by (intro mult_le_mono2)
    with 1 have "acc * g a < 2 ^ 64" by linarith
    then have w2: "wrap (acc * g a) = acc * g a" by (rule wrap_id)
    have "acc * g a * prod_list (map h axes) \<le> acc * h a * prod_list (map h axes)"
      using ha(1) by (intro mult_le_mono1 mult_le_mono2)
    with bound' have "acc * g a * prod_list (map h axes) < 2 ^ 64" by linarith
    then have "fold (\<lambda>a N. wrap (N * wrap (g a))) axes (acc * g a) =
        acc * g a * prod_list (map g axes)"
      using Cons.prems(1) by (intro Cons.IH) simp_all
    then show ?thesis by (simp add: w1 w2 mult.assoc)
  qed
qed

lemma norm_count_eq:
  assumes "\<forall>a\<in>set axes. 1 \<le> shape ! a"
    and "delta \<in> {- 1, 0, 1}"
    and "axes_count shape axes 1 < 2 ^ 64"
  shows "norm_count shape axes 2 delta = axes_count shape axes delta"
proof -
  let ?g = "\<lambda>a. 2 * nat ((int (shape ! a) + delta) mod 2 ^ 64)"
  let ?h = "\<lambda>a. 2 * nat (int (shape ! a) + 1)"
  have hpos: "1 \<le> ?h a" for a by linarith
  have le: "prod_list (map ?h [a]) \<le> prod_list (map ?h axes)" if "a \<in> set axes" for a
    using that
  proof (induction axes)
    case Nil
    then show ?case by simp
  next
    case (Cons b axes)
    show ?case
    proof (cases "a = b")
      case True
      have "1 \<le> prod_list (map ?h axes)" using hpos by (intro prod_list_pos) blast
      then have "?h a * 1 \<le> ?h a * prod_list (map ?h axes)" by (rule mult_le_mono2)
      then show ?thesis using True by simp
    next
      case False
      with Cons have "prod_list (map ?h [a]) \<le> prod_list (map ?h axes)" by simp
      also have "\<dots> = 1 * prod_list (map ?h axes)" by simp
      also have "\<dots> \<le> ?h b * prod_list (map ?h axes)" using hpos by (rule mult_le_mono1)
      finally show ?thesis by simp
    qed
  qed
  have small: "int (shape ! a) + delta < 2 ^ 64" if "a \<in> set axes" for a
  proof -
    have "?h a < 2 ^ 64" using le [OF that] assms(3) by (simp add: axes_count_def)
    then have "int (shape ! a) + 1 < 2 ^ 64" by simp
    with assms(2) show ?thesis by auto
  qed
  have g: "?g a = 2 * nat (int (shape ! a) + delta)" if "a \<in> set axes" for a
  proof -
    have "0 \<le> int (shape ! a) + delta" using assms(1,2) that by fastforce
    with small [OF that] show ?thesis by simp
  qed
  have e: "fold (\<lambda>a N. wrap (N * wrap (?g a))) axes 1 = 1 * prod_list (map ?g axes)"
  proof (rule norm_count_fold [where h = ?h])
    show "\<forall>a\<in>set axes. ?g a \<le> ?h a \<and> 1 \<le> ?h a"
    proof (intro ballI conjI)
      fix a assume "a \<in> set axes"
      from g [OF this] assms(2) show "?g a \<le> ?h a" by auto
      show "1 \<le> ?h a" by (rule hpos)
    qed
    show "1 * prod_list (map ?h axes) < 2 ^ 64"
      using assms(3) by (simp add: axes_count_def)
  qed
  have m: "map ?g axes = map (\<lambda>a. 2 * nat (int (shape ! a) + delta)) axes"
    using g by (intro map_cong) simp_all
  show ?thesis unfolding norm_count_def axes_count_def e m by simp
qed

lemma axes_count_pos:
  assumes "\<forall>a\<in>set axes. 1 \<le> int (shape ! a) + delta"
  shows "0 < axes_count shape axes delta"
proof -
  have "1 \<le> prod_list (map (\<lambda>a. 2 * nat (int (shape ! a) + delta)) axes)"
  proof (rule prod_list_pos, rule ballI)
    fix a assume "a \<in> set axes"
    with assms have "1 \<le> int (shape ! a) + delta" by blast
    then show "1 \<le> 2 * nat (int (shape ! a) + delta)" by linarith
  qed
  then show ?thesis by (simp add: axes_count_def)
qed

lemma norm_fct_axes_finite:
  assumes "inorm \<in> {1, 2}" "0 < norm_count shape axes k delta"
  shows "norm_fct_axes inorm shape axes k delta =
    Inr (Finite (if inorm = 2 then 1 / real (norm_count shape axes k delta)
                 else 1 / sqrt (real (norm_count shape axes k delta))))"
  using assms by (auto simp: norm_fct_axes_def norm_fct_def)

text \<open>
  Claim C4, as the code has it. Take a DCT or DST of type 1 to 4 with \<open>inorm\<close> 1 or 2
  on axes of length at least 1, whose lengths do not make the product leave \<open>size_t\<close>.
  The DST's factor is \<open>1 / sqrt N\<close> or \<open>1 / N\<close> where \<open>N\<close> is the product over the
  transformed axes of \<open>2 * (n + 1)\<close> for type 1 and of \<open>2 * n\<close> for types 2, 3 and 4. The
  DCT's factor is \<open>1 / sqrt N\<close> or \<open>1 / N\<close> where \<open>N\<close> is the product of \<open>2 * (n - 1)\<close> for
  type 1, provided every transformed axis then has length at least 2, and of \<open>2 * n\<close> for
  types 2, 3 and 4. (A DCT of type 1 along an axis of length 1 has \<open>N = 0\<close>, and the
  factor is \<open>+inf\<close>: lemma \<open>dct_type1_length1\<close>.)
\<close>

theorem dct_dst_norm_count:
  assumes "type \<in> {1, 2, 3, 4}" "inorm \<in> {1, 2}"
    and "makeaxes (length shape) axes0 = Inr axes"
    and "\<forall>a\<in>set axes. 1 \<le> shape ! a"
    and "axes_count shape axes 1 < 2 ^ 64"
  shows "((type = 1 \<longrightarrow> (\<forall>a\<in>set axes. 2 \<le> shape ! a)) \<longrightarrow>
          dct shape type axes0 inorm =
            Inr (Finite
              (if inorm = 2 then 1 / real (axes_count shape axes (if type = 1 then - 1 else 0))
               else 1 / sqrt (real (axes_count shape axes (if type = 1 then - 1 else 0)))))) \<and>
         dst shape type axes0 inorm =
           Inr (Finite
             (if inorm = 2 then 1 / real (axes_count shape axes (if type = 1 then 1 else 0))
              else 1 / sqrt (real (axes_count shape axes (if type = 1 then 1 else 0)))))"
proof -
  have c: "norm_count shape axes 2 delta = axes_count shape axes delta"
    if "delta \<in> {- 1, 0, 1}" for delta
    using assms(4) that assms(5) by (rule norm_count_eq)
  have t: "\<not> (type < 1 \<or> type > 4)" using assms(1) by auto
  have n: "norm_fct_axes inorm shape axes 2 delta =
      Inr (Finite (if inorm = 2 then 1 / real (axes_count shape axes delta)
                   else 1 / sqrt (real (axes_count shape axes delta))))"
    if "delta \<in> {- 1, 0, 1}" "\<forall>a\<in>set axes. 1 \<le> int (shape ! a) + delta" for delta
  proof -
    have "0 < norm_count shape axes 2 delta"
      unfolding c [OF that(1)] using that(2) by (rule axes_count_pos)
    from norm_fct_axes_finite [OF assms(2) this] show ?thesis
      unfolding c [OF that(1)] .
  qed
  have p0: "\<forall>a\<in>set axes. 1 \<le> int (shape ! a) + 0" using assms(4) by simp
  have p1: "\<forall>a\<in>set axes. 1 \<le> int (shape ! a) + 1" by simp
  have dst: "dst shape type axes0 inorm =
      Inr (Finite
        (if inorm = 2 then 1 / real (axes_count shape axes (if type = 1 then 1 else 0))
         else 1 / sqrt (real (axes_count shape axes (if type = 1 then 1 else 0)))))"
    using t assms(3) n [of 0, OF _ p0] n [of 1, OF _ p1] by (simp add: dst_def)
  have dct: "dct shape type axes0 inorm =
      Inr (Finite
        (if inorm = 2 then 1 / real (axes_count shape axes (if type = 1 then - 1 else 0))
         else 1 / sqrt (real (axes_count shape axes (if type = 1 then - 1 else 0)))))"
    if "type = 1 \<longrightarrow> (\<forall>a\<in>set axes. 2 \<le> shape ! a)"
  proof (cases "type = 1")
    case True
    with that have "\<forall>a\<in>set axes. 2 \<le> shape ! a" by blast
    then have "\<forall>a\<in>set axes. 1 \<le> int (shape ! a) + (- 1)" by fastforce
    from n [of "- 1", OF _ this] True t assms(3) show ?thesis by (simp add: dct_def)
  next
    case False
    with n [of 0, OF _ p0] t assms(3) show ?thesis by (simp add: dct_def)
  qed
  from dst dct show ?thesis by blast
qed

text \<open>
  The instance for a \<open>3 \<times> 5\<close> array, all axes, type 1, \<open>inorm = 2\<close>: the DCT divides by
  \<open>4 * 8\<close>, the DST by \<open>8 * 12\<close>.
\<close>

theorem dct_dst_norm_count_witness:
  "dct [3, 5] 1 None 2 = Inr (Finite (1 / 32)) \<and> dst [3, 5] 1 None 2 = Inr (Finite (1 / 96))"
proof -
  have "(1::int) \<in> {1, 2, 3, 4}" "(2::int) \<in> {1, 2}"
    "makeaxes (length [3, 5::nat]) None = Inr [0, 1]"
    "\<forall>a\<in>set [0, 1]. 1 \<le> [3, 5::nat] ! a"
    "axes_count [3, 5] [0, 1] 1 < 2 ^ 64"
    by (simp_all add: makeaxes_def axes_count_def)
  from dct_dst_norm_count [OF this] show ?thesis
    by (simp add: axes_count_def)
qed

text \<open>
  Claim C4 as stated fails for the DST of type 1: \<open>dst_internal\<close> passes \<open>delta = 1\<close>, so an
  axis of length 3 counts \<open>2 * (3 + 1) = 8\<close>, not \<open>2 * (3 - 1) = 4\<close>.
\<close>

theorem dst_type1_counterexample:
  "dst [3] 1 None 2 = Inr (Finite (1 / 8)) \<and> axes_count [3] [0] (- 1) = 4 \<and>
   dst [3] 1 None 2 \<noteq> Inr (Finite (1 / real (axes_count [3] [0] (- 1))))"
  by (simp add: dst_def makeaxes_def norm_fct_axes_def norm_fct_def norm_count_def wrap_def
      axes_count_def)

text \<open>A DCT of type 1 along an axis of length 1 counts \<open>N = 0\<close>; the factor is \<open>+inf\<close>.\<close>

lemma dct_type1_length1: "dct [1] 1 None 2 = Inr PlusInf \<and> dct [1] 1 None 1 = Inr PlusInf"
  by (simp add: dct_def makeaxes_def norm_fct_axes_def norm_fct_def norm_count_def wrap_def)

lemma makeaxes_nonempty:
  assumes "makeaxes ndim axes0 = Inr axes" "0 < ndim"
  shows "axes \<noteq> []"
  using assms by (auto simp: makeaxes_def split: option.splits if_splits)

lemma norm_fct_axes_ok:
  assumes "inorm \<in> {0, 1, 2}"
  shows "\<exists>fct. norm_fct_axes inorm shape axes k delta = Inr fct"
  using assms by (auto simp: norm_fct_axes_def norm_fct_def)

text \<open>
  Claim C5, as the code has it. Let \<open>n < 2 ^ 63\<close> be the length of the input along the
  last transformed axis, and let the axes and \<open>inorm\<close> be valid. A \<open>lastsize\<close> of 0 stands
  for "not given" and is replaced by \<open>2 * n - 1\<close>. With \<open>L\<close> the value after that
  replacement, the call fails with "bad lastsize" if and only if \<open>n = 0\<close> or
  \<open>L \<notin> {2n - 2, 2n - 1}\<close>; otherwise it succeeds and the output shape is the input shape
  with \<open>L\<close> entries along the last transformed axis.
\<close>

theorem c2r_lastsize:
  assumes "makeaxes (length shape) axes0 = Inr axes" "shape \<noteq> []" "inorm \<in> {0, 1, 2}"
    and "n = shape ! last axes" "n < 2 ^ 63" "lastsize < 2 ^ 64"
    and "L = (if lastsize = 0 then 2 * n - 1 else lastsize)"
  shows "(c2r_internal shape axes0 lastsize inorm = Inl (InvalidArgument ''bad lastsize'') \<longleftrightarrow>
            \<not> (1 \<le> n \<and> int L \<in> {2 * int n - 2, 2 * int n - 1})) \<and>
         (1 \<le> n \<and> int L \<in> {2 * int n - 2, 2 * int n - 1} \<longrightarrow>
            (\<exists>fct. c2r_internal shape axes0 lastsize inorm =
               Inr (list_update shape (last axes) L, fct)))"
proof -
  define L' where "L' = (if lastsize = 0 then wrap_sub (wrap (2 * n)) 1 else lastsize)"
  have w: "wrap (2 * n) = 2 * n" using assms(5) by (intro wrap_id) simp
  have L'bound: "L' < 2 ^ 64" using assms(6) by (simp add: L'_def wrap_sub_def)
  have w2: "wrap (L' div 2 + 1) = L' div 2 + 1" using L'bound by (intro wrap_id) simp
  have ok: "(L' div 2 + 1 = n) \<longleftrightarrow> (1 \<le> n \<and> int L \<in> {2 * int n - 2, 2 * int n - 1})"
  proof (cases "lastsize = 0")
    case False
    then have "L' = L" by (simp add: L'_def assms(7))
    then show ?thesis by auto
  next
    case True
    show ?thesis
    proof (cases "n = 0")
      case True
      then show ?thesis by simp
    next
      case False
      then have "2 * n + 2 ^ 64 - 1 = (2 * n - 1) + 2 ^ 64" by simp
      moreover have "2 * n - 1 < 2 ^ 64" using assms(5) by simp
      ultimately have "wrap_sub (2 * n) 1 = 2 * n - 1"
        unfolding wrap_sub_def by (metis mod_add_self2 mod_less)
      then have "L' = 2 * n - 1" "L = 2 * n - 1"
        using True w by (simp_all add: L'_def assms(7))
      with False show ?thesis by auto
    qed
  qed
  have same: "1 \<le> n \<and> int L \<in> {2 * int n - 2, 2 * int n - 1} \<Longrightarrow> L' = L"
  proof (cases "lastsize = 0")
    case False
    then show ?thesis by (simp add: L'_def assms(7))
  next
    case True
    assume "1 \<le> n \<and> int L \<in> {2 * int n - 2, 2 * int n - 1}"
    then have "2 * n + 2 ^ 64 - 1 = (2 * n - 1) + 2 ^ 64" by simp
    moreover have "2 * n - 1 < 2 ^ 64" using assms(5) by simp
    ultimately have "wrap_sub (2 * n) 1 = 2 * n - 1"
      unfolding wrap_sub_def by (metis mod_add_self2 mod_less)
    then show ?thesis using True w by (simp add: L'_def assms(7))
  qed
  have unfold: "c2r_internal shape axes0 lastsize inorm =
      (if L' div 2 + 1 \<noteq> n then Inl (InvalidArgument ''bad lastsize'')
       else case norm_fct_axes inorm (list_update shape (last axes) L') axes 1 0 of
              Inl e \<Rightarrow> Inl e
            | Inr fct \<Rightarrow> Inr (list_update shape (last axes) L', fct))"
    unfolding c2r_internal_def assms(1) sum.case Let_def
    unfolding assms(4) [symmetric]
    unfolding L'_def [symmetric]
    unfolding w2 by simp
  from norm_fct_axes_ok [OF assms(3)] obtain fct where
    fct: "norm_fct_axes inorm (list_update shape (last axes) L') axes 1 0 = Inr fct" by blast
  show ?thesis
  proof (cases "1 \<le> n \<and> int L \<in> {2 * int n - 2, 2 * int n - 1}")
    case True
    with ok same have "L' div 2 + 1 = n" "L' = L" by blast+
    with unfold fct have "c2r_internal shape axes0 lastsize inorm =
        Inr (list_update shape (last axes) L, fct)" by simp
    with True show ?thesis by simp
  next
    case False
    with ok have "L' div 2 + 1 \<noteq> n" by blast
    with unfold have "c2r_internal shape axes0 lastsize inorm =
        Inl (InvalidArgument ''bad lastsize'')" by simp
    with False show ?thesis by simp
  qed
qed

text \<open>
  Instances: a \<open>3 \<times> 4\<close> input with \<open>lastsize = 6\<close> gives a \<open>3 \<times> 6\<close> output, and
  \<open>lastsize = 5\<close> is rejected.
\<close>

theorem c2r_lastsize_witness:
  "(\<exists>fct. c2r_internal [3, 4] None 6 2 = Inr ([3, 6], fct)) \<and>
   c2r_internal [3, 4] None 5 2 = Inl (InvalidArgument ''bad lastsize'')"
proof -
  have h: "makeaxes (length [3, 4::nat]) None = Inr [0, 1]" "[3, 4::nat] \<noteq> []"
    "(2::int) \<in> {0, 1, 2}" "(4::nat) = [3, 4] ! last [0, 1::nat]" "(4::nat) < 2 ^ 63"
    by (simp_all add: makeaxes_def)
  have "(6::nat) < 2 ^ 64" "(6::nat) = (if (6::nat) = 0 then 2 * 4 - 1 else 6)" by simp_all
  from c2r_lastsize [OF h this]
  have a: "\<exists>fct. c2r_internal [3, 4] None 6 2 = Inr ([3, 6], fct)" by simp
  have "(5::nat) < 2 ^ 64" "(5::nat) = (if (5::nat) = 0 then 2 * 4 - 1 else 5)" by simp_all
  from c2r_lastsize [OF h this]
  have "c2r_internal [3, 4] None 5 2 = Inl (InvalidArgument ''bad lastsize'')" by simp
  with a show ?thesis by simp
qed

text \<open>
  Claim C5 as stated fails for \<open>lastsize = 0\<close>: with \<open>n = 4\<close> the value 0 is not in
  \<open>{6, 7}\<close>, yet the call succeeds, and its output has 7 entries along the axis, not
  \<open>lastsize = 0\<close>.
\<close>

theorem c2r_lastsize_zero_counterexample:
  "c2r_internal [4] None 0 0 = Inr ([7], Finite 1) \<and> (0::int) \<notin> {2 * 4 - 2, 2 * 4 - 1}"
  by (simp add: c2r_internal_def makeaxes_def norm_fct_axes_def wrap_def wrap_sub_def)

section \<open>The scan of the gridder and its early exits\<close>

lemma scan_step_length: "length (active (scan_step bl ms_in wgt mask0 p s)) = length (active s)"
  by (cases p) (simp add: scan_step_def)

lemma fold_scan_step_length:
  "length (active (fold (scan_step bl ms_in wgt mask0) ps s)) = length (active s)"
  by (induction ps arbitrary: s) (simp_all add: scan_step_length)

lemma fold_scan_step_active:
  assumes "k < length (active s)"
  shows "active (fold (scan_step bl ms_in wgt mask0) ps s) ! k =
    (if \<exists>p\<in>set ps. fst p * nchan bl + snd p = k \<and> sample_test ms_in wgt mask0 (fst p) (snd p)
     then 1 else active s ! k)"
  using assms
proof (induction ps arbitrary: s)
  case Nil
  then show ?case by simp
next
  case (Cons p ps)
  let ?s = "scan_step bl ms_in wgt mask0 p s"
  have len: "k < length (active ?s)" using Cons.prems by (simp add: scan_step_length)
  have one: "active ?s ! k =
      (if fst p * nchan bl + snd p = k \<and> sample_test ms_in wgt mask0 (fst p) (snd p)
       then 1 else active s ! k)"
    using Cons.prems by (cases p) (auto simp: scan_step_def nth_list_update)
  show ?case using Cons.IH [OF len] one by auto
qed

lemma fold_scan_step_nvis:
  "nvis (fold (scan_step bl ms_in wgt mask0) ps s) =
     nvis s + length (filter (\<lambda>p. sample_test ms_in wgt mask0 (fst p) (snd p)) ps)"
proof (induction ps arbitrary: s)
  case Nil
  then show ?case by simp
next
  case (Cons p ps)
  have "nvis (scan_step bl ms_in wgt mask0 p s) =
      nvis s + (if sample_test ms_in wgt mask0 (fst p) (snd p) then 1 else 0)"
    by (cases p) (simp add: scan_step_def)
  then show ?case using Cons.IH [of "scan_step bl ms_in wgt mask0 p s"] by simp
qed

lemma row_major_inj:
  fixes i c :: nat
  assumes "i * n + c = i' * n + c'" "c < n" "c' < n"
  shows "i = i' \<and> c = c'"
proof -
  have "(i * n + c) mod n = c" "(i' * n + c') mod n = c'" using assms(2,3) by simp_all
  with assms(1) have c: "c = c'" by metis
  with assms(1) have "i * n = i' * n" by simp
  with assms(2) have "i = i'" by simp
  with c show ?thesis by simp
qed

lemma row_major_bound:
  fixes i c :: nat
  assumes "i < m" "c < n"
  shows "i * n + c < m * n"
proof -
  have "i * n + c < i * n + n" using assms(2) by simp
  also have "\<dots> = Suc i * n" by simp
  also have "\<dots> \<le> m * n" using assms(1) by (intro mult_le_mono1) simp
  finally show ?thesis .
qed

lemma scanData_Inr:
  assumes "scanData bl ms_in wgt mask0 = Inr s"
  shows "s = fold (scan_step bl ms_in wgt mask0) (List.product [0..<nrows bl] [0..<nchan bl])
      \<lparr>active = replicate (nrows bl * nchan bl) 0, nvis = 0,
       wmin_d = 10 ^ 300, wmax_d = - (10 ^ 300)\<rparr>"
proof -
  have "scanData bl ms_in wgt mask0 = Inr s' \<Longrightarrow> s' = s \<Longrightarrow> ?thesis" for s'
    unfolding scanData_def Let_def by (simp only: split: if_splits) simp_all
  with assms show ?thesis by blast
qed

lemma scanData_active:
  assumes "scanData bl ms_in wgt mask0 = Inr s" "irow < nrows bl" "ichan < nchan bl"
  shows "active s ! (irow * nchan bl + ichan) =
    (if sample_test ms_in wgt mask0 irow ichan then 1 else 0)"
proof -
  let ?ps = "List.product [0..<nrows bl] [0..<nchan bl]"
  let ?s0 = "\<lparr>active = replicate (nrows bl * nchan bl) 0, nvis = 0,
              wmin_d = 10 ^ 300, wmax_d = - (10 ^ 300)\<rparr>"
  let ?k = "irow * nchan bl + ichan"
  have s: "s = fold (scan_step bl ms_in wgt mask0) ?ps ?s0"
    using assms(1) by (rule scanData_Inr)
  have k: "?k < length (active ?s0)"
    using row_major_bound [OF assms(2,3)] by simp
  have "(\<exists>p\<in>set ?ps. fst p * nchan bl + snd p = ?k \<and>
           sample_test ms_in wgt mask0 (fst p) (snd p)) \<longleftrightarrow>
        sample_test ms_in wgt mask0 irow ichan"
  proof
    assume "\<exists>p\<in>set ?ps. fst p * nchan bl + snd p = ?k \<and>
           sample_test ms_in wgt mask0 (fst p) (snd p)"
    then obtain i c where ic: "i < nrows bl" "c < nchan bl" "i * nchan bl + c = ?k"
      "sample_test ms_in wgt mask0 i c" by auto
    from row_major_inj [OF ic(3) ic(2) assms(3)] ic(4)
    show "sample_test ms_in wgt mask0 irow ichan" by simp
  next
    assume "sample_test ms_in wgt mask0 irow ichan"
    then show "\<exists>p\<in>set ?ps. fst p * nchan bl + snd p = ?k \<and>
           sample_test ms_in wgt mask0 (fst p) (snd p)"
      using assms(2,3) by (intro bexI [of _ "(irow, ichan)"]) simp_all
  qed
  with fold_scan_step_active [OF k, of bl ms_in wgt mask0 ?ps] k show ?thesis
    unfolding s by simp
qed

lemma scanData_nvis:
  assumes "scanData bl ms_in wgt mask0 = Inr s"
  shows "nvis s = 0 \<longleftrightarrow>
    (\<forall>irow<nrows bl. \<forall>ichan<nchan bl. \<not> sample_test ms_in wgt mask0 irow ichan)"
proof -
  let ?ps = "List.product [0..<nrows bl] [0..<nchan bl]"
  have s: "s = fold (scan_step bl ms_in wgt mask0) ?ps
      \<lparr>active = replicate (nrows bl * nchan bl) 0, nvis = 0,
       wmin_d = 10 ^ 300, wmax_d = - (10 ^ 300)\<rparr>"
    using assms(1) by (rule scanData_Inr)
  have "nvis s = length (filter (\<lambda>p. sample_test ms_in wgt mask0 (fst p) (snd p)) ?ps)"
    unfolding s by (simp add: fold_scan_step_nvis)
  then have "nvis s = 0 \<longleftrightarrow> (\<forall>p\<in>set ?ps. \<not> sample_test ms_in wgt mask0 (fst p) (snd p))"
    by (simp add: filter_empty_conv)
  then show ?thesis by auto
qed

lemma cnorm_zero_iff: "cnorm z = 0 \<longleftrightarrow> z = 0"
proof -
  have "Re z * Re z + Im z * Im z = 0 \<longleftrightarrow> Re z = 0 \<and> Im z = 0"
    by (rule sum_squares_eq_zero_iff)
  then show ?thesis by (simp add: cnorm_def complex_eq_iff)
qed

lemma sample_test_iff:
  "sample_test ms_in wgt mask0 irow ichan \<longleftrightarrow>
     (mav_size ms_in \<noteq> 0 \<longrightarrow> mav_at ms_in irow ichan \<noteq> 0) \<and>
     (mav_size wgt \<noteq> 0 \<longrightarrow> mav_at wgt irow ichan \<noteq> 0) \<and>
     (mav_size mask0 \<noteq> 0 \<longrightarrow> mav_at mask0 irow ichan \<noteq> 0)"
  by (auto simp: sample_test_def cnorm_zero_iff)

lemma Params_no_active:
  assumes "Baselines uvw freq negate_v = Inr bl" "scanData bl ms_in wgt mask0 = Inr s"
    and "nvis s = 0"
  shows "Params uvw freq ms_in ms_out dirty_in dirty_out wgt mask0 negate_v =
    Returned (if mav_size ms_in > 0 then ms_out else mav_fill ms_out 0)
             (if mav_size ms_in > 0 then mav_fill dirty_out 0 else dirty_out)"
  using assms by (simp add: Params_def)

lemma dirty2ms_no_active:
  assumes "Baselines uvw freq negate_v = Inr bl" "scanData bl mav_null wgt mask0 = Inr s"
    and "nvis s = 0"
  shows "dirty2ms uvw freq dirty wgt mask0 negate_v ms = Returned (mav_fill ms 0) mav_null"
  using Params_no_active [OF assms] by (simp add: dirty2ms_def mav_size_def mav_null_def)

lemma ms2dirty_no_active:
  assumes "Baselines uvw freq negate_v = Inr bl" "scanData bl ms wgt mask0 = Inr s"
    and "nvis s = 0" "0 < mav_size ms"
  shows "ms2dirty uvw freq ms wgt mask0 negate_v dirty = Returned mav_null (mav_fill dirty 0)"
  using Params_no_active [OF assms(1-3)] assms(4) by (simp add: ms2dirty_def)

text \<open>
  Claim C8. The scan marks a sample active exactly when the three tests pass
  (\<open>scanData_active\<close> with \<open>sample_test_iff\<close>), \<open>nvis\<close> is 0 exactly when no sample is
  active (\<open>scanData_nvis\<close>), and then \<open>dirty2ms\<close> returns zeroed visibilities and
  \<open>ms2dirty\<close> a zeroed dirty image without going on to grid, provided the visibilities of
  \<open>ms2dirty\<close> are not an empty array (\<open>dirty2ms_no_active\<close>, \<open>ms2dirty_no_active\<close>). For an
  empty measurement set the constructor takes \<open>ms_in.size()>0\<close> to be false, treats the
  call as degridding, and \<open>if (gridding) dirty_out.fill(0)\<close> is skipped: with no rows at
  all, no sample is active, the call returns, and the \<open>2 \<times> 2\<close> dirty image keeps the
  values 1, 2, 3, 4 it had.
\<close>

theorem ms2dirty_empty_ms_keeps_dirty:
  "ms2dirty \<lparr>shape0 = 0, shape1 = 3, elems = []\<rparr> [1]
      \<lparr>shape0 = 0, shape1 = 1, elems = []\<rparr> mav_null mav_null False
      \<lparr>shape0 = 2, shape1 = 2, elems = [1, 2, 3, 4]\<rparr> =
   Returned mav_null \<lparr>shape0 = 2, shape1 = 2, elems = [1, 2, 3, 4]\<rparr>"
  by (simp add: ms2dirty_def Params_def Baselines_def scanData_def mav_size_def mav_fill_def
      mav_null_def Let_def)

lemma Baselines_bad_freq:
  assumes "\<exists>f\<in>set freq. f \<le> 0"
  shows "\<exists>msg. Baselines uvw freq negate_v = Inl (AssertionFailed msg)"
proof -
  from assms obtain f where f: "f \<in> set freq" "f \<le> 0" by blast
  then have "\<not> f > 0" by simp
  with f(1) have "list_ex (\<lambda>f. \<not> f > 0) freq" unfolding list_ex_iff by blast
  then show ?thesis by (simp add: Baselines_def)
qed

text \<open>
  Claim C10. If some entry of \<open>freq\<close> is zero or negative, the constructor of
  \<open>Baselines\<close> fails with an assertion, and both \<open>ms2dirty\<close> and \<open>dirty2ms\<close> fail with
  that assertion while their output arrays (the dirty image, the visibilities) are
  still the arrays that were passed in.
\<close>

theorem nonpositive_freq_fails:
  assumes "\<exists>f\<in>set freq. f \<le> 0"
  shows "\<exists>msg. Baselines uvw freq negate_v = Inl (AssertionFailed msg) \<and>
     ms2dirty uvw freq ms wgt mask0 negate_v dirty = Failed (AssertionFailed msg) mav_null dirty \<and>
     dirty2ms uvw freq dirty wgt mask0 negate_v ms = Failed (AssertionFailed msg) ms mav_null"
proof -
  from Baselines_bad_freq [OF assms] obtain msg where
    "Baselines uvw freq negate_v = Inl (AssertionFailed msg)" by blast
  then show ?thesis by (auto simp: ms2dirty_def dirty2ms_def Params_def)
qed

text \<open>
  The instance with the frequencies 1 and 0, one row of coordinates, and arrays of
  ones as outputs.
\<close>

theorem nonpositive_freq_fails_witness:
  "ms2dirty \<lparr>shape0 = 1, shape1 = 3, elems = [1, 1, 1]\<rparr> [1, 0]
      \<lparr>shape0 = 1, shape1 = 2, elems = [1, 1]\<rparr> mav_null mav_null False
      \<lparr>shape0 = 1, shape1 = 1, elems = [1]\<rparr> =
     Failed (AssertionFailed ''negative channel frequency encountered'') mav_null
       \<lparr>shape0 = 1, shape1 = 1, elems = [1]\<rparr> \<and>
   dirty2ms \<lparr>shape0 = 1, shape1 = 3, elems = [1, 1, 1]\<rparr> [1, 0]
      \<lparr>shape0 = 1, shape1 = 1, elems = [1]\<rparr> mav_null mav_null False
      \<lparr>shape0 = 1, shape1 = 2, elems = [1, 1]\<rparr> =
     Failed (AssertionFailed ''negative channel frequency encountered'')
       \<lparr>shape0 = 1, shape1 = 2, elems = [1, 1]\<rparr> mav_null"
proof -
  let ?uvw = "\<lparr>shape0 = 1, shape1 = 3, elems = [1, 1, 1::real]\<rparr>"
  let ?ms = "\<lparr>shape0 = 1, shape1 = 2, elems = [1, 1::complex]\<rparr>"
  let ?dirty = "\<lparr>shape0 = 1, shape1 = 1, elems = [1::real]\<rparr>"
  have b: "Baselines ?uvw [1, 0] False =
      Inl (AssertionFailed ''negative channel frequency encountered'')"
    by (simp add: Baselines_def)
  have "\<exists>f\<in>set [1, 0::real]. f \<le> 0" by simp
  from nonpositive_freq_fails [OF this, of ?uvw False ?ms mav_null mav_null ?dirty]
  obtain msg where m: "Baselines ?uvw [1, 0] False = Inl (AssertionFailed msg)"
    "ms2dirty ?uvw [1, 0] ?ms mav_null mav_null False ?dirty =
       Failed (AssertionFailed msg) mav_null ?dirty"
    "dirty2ms ?uvw [1, 0] ?dirty mav_null mav_null False ?ms =
       Failed (AssertionFailed msg) ?ms mav_null"
    by blast
  from m(1) have "msg = ''negative channel frequency encountered''"
    unfolding b by simp
  with m(2,3) show ?thesis by simp
qed

section \<open>Planning: the range of w, the grid size and the w-planes\<close>

lemma scan_step_wmin:
  "wmin_d (scan_step bl ms_in wgt mask0 p s) =
     (if sample_test ms_in wgt mask0 (fst p) (snd p)
      then min (wmin_d s) \<bar>effective_w bl (fst p) (snd p)\<bar> else wmin_d s)"
  by (cases p) (simp add: scan_step_def)

lemma scan_step_wmax:
  "wmax_d (scan_step bl ms_in wgt mask0 p s) =
     (if sample_test ms_in wgt mask0 (fst p) (snd p)
      then max (wmax_d s) \<bar>effective_w bl (fst p) (snd p)\<bar> else wmax_d s)"
  by (cases p) (simp add: scan_step_def)

lemma fold_scan_step_wrange:
  "wmin_d (fold (scan_step bl ms_in wgt mask0) ps s) \<le> wmin_d s \<and>
   wmax_d s \<le> wmax_d (fold (scan_step bl ms_in wgt mask0) ps s) \<and>
   (\<forall>p\<in>set ps. sample_test ms_in wgt mask0 (fst p) (snd p) \<longrightarrow>
      wmin_d (fold (scan_step bl ms_in wgt mask0) ps s) \<le> \<bar>effective_w bl (fst p) (snd p)\<bar> \<and>
      \<bar>effective_w bl (fst p) (snd p)\<bar> \<le> wmax_d (fold (scan_step bl ms_in wgt mask0) ps s))"
proof (induction ps arbitrary: s)
  case Nil
  then show ?case by simp
next
  case (Cons p ps)
  let ?s = "scan_step bl ms_in wgt mask0 p s"
  let ?r = "fold (scan_step bl ms_in wgt mask0) ps ?s"
  have step: "wmin_d ?s \<le> wmin_d s" "wmax_d s \<le> wmax_d ?s"
    "sample_test ms_in wgt mask0 (fst p) (snd p) \<Longrightarrow>
       wmin_d ?s \<le> \<bar>effective_w bl (fst p) (snd p)\<bar> \<and>
       \<bar>effective_w bl (fst p) (snd p)\<bar> \<le> wmax_d ?s"
    by (simp_all add: scan_step_wmin scan_step_wmax)
  from Cons.IH [of ?s] have ih: "wmin_d ?r \<le> wmin_d ?s" "wmax_d ?s \<le> wmax_d ?r"
    "\<forall>q\<in>set ps. sample_test ms_in wgt mask0 (fst q) (snd q) \<longrightarrow>
       wmin_d ?r \<le> \<bar>effective_w bl (fst q) (snd q)\<bar> \<and>
       \<bar>effective_w bl (fst q) (snd q)\<bar> \<le> wmax_d ?r"
    by blast+
  have 1: "wmin_d ?r \<le> wmin_d s" using ih(1) step(1) by linarith
  have 2: "wmax_d s \<le> wmax_d ?r" using ih(2) step(2) by linarith
  have 3: "wmin_d ?r \<le> \<bar>effective_w bl (fst p) (snd p)\<bar> \<and>
       \<bar>effective_w bl (fst p) (snd p)\<bar> \<le> wmax_d ?r"
    if "sample_test ms_in wgt mask0 (fst p) (snd p)"
    using step(3) [OF that] ih(1,2) by linarith
  show ?case using 1 2 3 ih(3) by simp
qed

lemma fold_scan_step_attained:
  "(wmin_d (fold (scan_step bl ms_in wgt mask0) ps s) = wmin_d s \<or>
    (\<exists>p\<in>set ps. sample_test ms_in wgt mask0 (fst p) (snd p) \<and>
       wmin_d (fold (scan_step bl ms_in wgt mask0) ps s) = \<bar>effective_w bl (fst p) (snd p)\<bar>)) \<and>
   (wmax_d (fold (scan_step bl ms_in wgt mask0) ps s) = wmax_d s \<or>
    (\<exists>p\<in>set ps. sample_test ms_in wgt mask0 (fst p) (snd p) \<and>
       wmax_d (fold (scan_step bl ms_in wgt mask0) ps s) = \<bar>effective_w bl (fst p) (snd p)\<bar>))"
proof (induction ps arbitrary: s)
  case Nil
  then show ?case by simp
next
  case (Cons p ps)
  let ?s = "scan_step bl ms_in wgt mask0 p s"
  have step: "wmin_d ?s = wmin_d s \<or>
      sample_test ms_in wgt mask0 (fst p) (snd p) \<and> wmin_d ?s = \<bar>effective_w bl (fst p) (snd p)\<bar>"
    "wmax_d ?s = wmax_d s \<or>
      sample_test ms_in wgt mask0 (fst p) (snd p) \<and> wmax_d ?s = \<bar>effective_w bl (fst p) (snd p)\<bar>"
    by (auto simp add: scan_step_wmin scan_step_wmax min_def max_def)
  define r where "r = fold (scan_step bl ms_in wgt mask0) ps ?s"
  from Cons.IH [of ?s] have ih:
    "wmin_d r = wmin_d ?s \<or>
      (\<exists>q\<in>set ps. sample_test ms_in wgt mask0 (fst q) (snd q) \<and>
         wmin_d r = \<bar>effective_w bl (fst q) (snd q)\<bar>)"
    "wmax_d r = wmax_d ?s \<or>
      (\<exists>q\<in>set ps. sample_test ms_in wgt mask0 (fst q) (snd q) \<and>
         wmax_d r = \<bar>effective_w bl (fst q) (snd q)\<bar>)"
    unfolding r_def by blast+
  have 1: "wmin_d r = wmin_d s \<or>
      (\<exists>q\<in>set (p # ps). sample_test ms_in wgt mask0 (fst q) (snd q) \<and>
         wmin_d r = \<bar>effective_w bl (fst q) (snd q)\<bar>)"
    using ih(1) step(1) by auto
  have 2: "wmax_d r = wmax_d s \<or>
      (\<exists>q\<in>set (p # ps). sample_test ms_in wgt mask0 (fst q) (snd q) \<and>
         wmax_d r = \<bar>effective_w bl (fst q) (snd q)\<bar>)"
    using ih(2) step(2) by auto
  have "fold (scan_step bl ms_in wgt mask0) (p # ps) s = r" by (simp add: r_def)
  with 1 2 show ?case by simp
qed

text \<open>
  After the scan, \<open>wmin_d\<close> and \<open>wmax_d\<close> bound the \<open>|w|\<close> of every active sample, and
  each is the \<open>|w|\<close> of an active sample unless it still has its initial value.
\<close>

lemma scanData_wrange:
  assumes "scanData bl ms_in wgt mask0 = Inr s"
  shows "(\<forall>irow<nrows bl. \<forall>ichan<nchan bl. sample_test ms_in wgt mask0 irow ichan \<longrightarrow>
            wmin_d s \<le> \<bar>effective_w bl irow ichan\<bar> \<and> \<bar>effective_w bl irow ichan\<bar> \<le> wmax_d s) \<and>
         (wmin_d s = 10 ^ 300 \<or>
            (\<exists>irow<nrows bl. \<exists>ichan<nchan bl. sample_test ms_in wgt mask0 irow ichan \<and>
               wmin_d s = \<bar>effective_w bl irow ichan\<bar>)) \<and>
         (wmax_d s = - (10 ^ 300) \<or>
            (\<exists>irow<nrows bl. \<exists>ichan<nchan bl. sample_test ms_in wgt mask0 irow ichan \<and>
               wmax_d s = \<bar>effective_w bl irow ichan\<bar>))"
proof -
  define ps where "ps = List.product [0..<nrows bl] [0..<nchan bl]"
  define s0 where "s0 = \<lparr>active = replicate (nrows bl * nchan bl) 0, nvis = 0,
              wmin_d = 10 ^ 300, wmax_d = - (10 ^ 300)\<rparr>"
  have s: "fold (scan_step bl ms_in wgt mask0) ps s0 = s"
    unfolding ps_def s0_def using assms by (rule scanData_Inr [symmetric])
  have init: "wmin_d s0 = 10 ^ 300" "wmax_d s0 = - (10 ^ 300)"
    unfolding s0_def by (simp_all only: scan.select_convs)
  have mem: "p \<in> set ps \<longleftrightarrow> fst p < nrows bl \<and> snd p < nchan bl" for p
    unfolding ps_def by (cases p) simp
  note wr = fold_scan_step_wrange [of bl ms_in wgt mask0 ps s0, unfolded s]
  note at = fold_scan_step_attained [of bl ms_in wgt mask0 ps s0, unfolded s init]
  have 1: "wmin_d s \<le> \<bar>effective_w bl irow ichan\<bar> \<and> \<bar>effective_w bl irow ichan\<bar> \<le> wmax_d s"
    if "irow < nrows bl" "ichan < nchan bl" "sample_test ms_in wgt mask0 irow ichan"
    for irow ichan
  proof -
    have "(irow, ichan) \<in> set ps" using that(1,2) by (simp only: mem fst_conv snd_conv)
    with wr that(3) show ?thesis by fastforce
  qed
  have 2: "wmin_d s = 10 ^ 300 \<or>
      (\<exists>irow<nrows bl. \<exists>ichan<nchan bl. sample_test ms_in wgt mask0 irow ichan \<and>
         wmin_d s = \<bar>effective_w bl irow ichan\<bar>)"
  proof (cases "wmin_d s = 10 ^ 300")
    case False
    with at obtain p where "p \<in> set ps" "sample_test ms_in wgt mask0 (fst p) (snd p)"
      "wmin_d s = \<bar>effective_w bl (fst p) (snd p)\<bar>" by blast
    then show ?thesis unfolding mem by blast
  qed simp
  have 3: "wmax_d s = - (10 ^ 300) \<or>
      (\<exists>irow<nrows bl. \<exists>ichan<nchan bl. sample_test ms_in wgt mask0 irow ichan \<and>
         wmax_d s = \<bar>effective_w bl irow ichan\<bar>)"
  proof (cases "wmax_d s = - (10 ^ 300)")
    case False
    with at obtain p where "p \<in> set ps" "sample_test ms_in wgt mask0 (fst p) (snd p)"
      "wmax_d s = \<bar>effective_w bl (fst p) (snd p)\<bar>" by blast
    then show ?thesis unfolding mem by blast
  qed simp
  from 1 2 3 show ?thesis by (intro conjI allI impI) blast+
qed











lemma plane_count_floor:
  assumes "0 \<le> x"
  shows "to_size_t (x + real sp) = nat \<lfloor>x\<rfloor> + sp"
proof -
  have "\<lfloor>x + real sp\<rfloor> = \<lfloor>x\<rfloor> + int sp" by linarith
  moreover have "0 \<le> \<lfloor>x\<rfloor>" using assms by simp
  ultimately show ?thesis by (simp add: to_size_t_def nat_add_distrib)
qed

text \<open>
  Claim C7, as the code has it. With w-gridding enabled, a positive oversampling
  factor, \<open>nm1min \<noteq> 0\<close> and \<open>wmin_d \<le> wmax_d\<close>, \<open>countRanges\<close> sets
  \<open>dw = 1 / (2 * ofactor * |nm1min|)\<close> and
  \<open>nplanes = \<lfloor>(wmax_d - wmin_d) / dw\<rfloor> + supp\<close>: the conversion to \<open>size_t\<close> truncates,
  it does not round up. (\<open>nm1min\<close> is the member holding \<open>n_min - 1\<close>; \<open>wmin_d\<close> and
  \<open>wmax_d\<close> are the members that \<open>scanData\<close> sets to the least and greatest \<open>|w|\<close> of the
  active samples.) The sum \<open>(wmax_d - wmin_d) / dw + supp\<close> is to fit \<open>size_t\<close>. The
  code evaluates it with five roundings of double precision, a relative error below
  \<open>1 / 2 ^ 50\<close>; so the statement is made where an error of that size cannot change its
  integer part, and where \<open>wmax_d = wmin_d\<close>, which makes the sum \<open>supp\<close> exactly.
\<close>

theorem countRanges_planes_wgridding:
  assumes "0 < ofac" "nm1 \<noteq> 0" "wlo \<le> whi"
    and "(whi - wlo) / (1 / (2 * ofac * \<bar>nm1\<bar>)) + real sp < 2 ^ 64"
    and "whi = wlo \<or>
         \<lfloor>((whi - wlo) / (1 / (2 * ofac * \<bar>nm1\<bar>)) + real sp) * (1 - 1 / 2 ^ 50)\<rfloor> =
         \<lfloor>((whi - wlo) / (1 / (2 * ofac * \<bar>nm1\<bar>)) + real sp) * (1 + 1 / 2 ^ 50)\<rfloor>"
  shows "\<exists>wm. countRanges_planes True ofac nm1 wlo whi sp =
           (1 / (2 * ofac * \<bar>nm1\<bar>),
            nat \<lfloor>(whi - wlo) / (1 / (2 * ofac * \<bar>nm1\<bar>))\<rfloor> + sp, wm)"
proof -
  have dw: "plane_spacing ofac nm1 = 1 / (2 * ofac * \<bar>nm1\<bar>)"
    by (simp add: plane_spacing_def)
  have pos: "0 < 1 / (2 * ofac * \<bar>nm1\<bar>)" using assms(1,2) by simp
  then have "0 \<le> (whi - wlo) / (1 / (2 * ofac * \<bar>nm1\<bar>))"
    using assms(3) by (intro divide_nonneg_pos) simp_all
  then have "plane_count whi wlo (1 / (2 * ofac * \<bar>nm1\<bar>)) sp =
      nat \<lfloor>(whi - wlo) / (1 / (2 * ofac * \<bar>nm1\<bar>))\<rfloor> + sp"
    unfolding plane_count_def by (rule plane_count_floor)
  then show ?thesis
    unfolding countRanges_planes_def Let_def dw by simp
qed

text \<open>
  The instance \<open>ofactor = 2\<close>, \<open>nm1min = -1/4\<close>, \<open>wmin_d = 0\<close>, \<open>wmax_d = 3/2\<close>,
  \<open>supp = 4\<close>: \<open>dw = 1\<close> and five planes.
\<close>

theorem countRanges_planes_wgridding_witness:
  "\<exists>wm. countRanges_planes True 2 (- 1 / 4) 0 (3 / 2) 4 = (1, 5, wm)"
proof -
  have "(0::real) < 2" "(- 1 / 4 :: real) \<noteq> 0" "(0::real) \<le> 3 / 2"
    "(3 / 2 - 0) / (1 / (2 * 2 * \<bar>- 1 / 4 :: real\<bar>)) + real 4 < 2 ^ 64"
    "(3 / 2 :: real) = 0 \<or>
     \<lfloor>((3 / 2 - 0) / (1 / (2 * 2 * \<bar>- 1 / 4 :: real\<bar>)) + real 4) * (1 - 1 / 2 ^ 50)\<rfloor> =
     \<lfloor>((3 / 2 - 0) / (1 / (2 * 2 * \<bar>- 1 / 4 :: real\<bar>)) + real 4) * (1 + 1 / 2 ^ 50)\<rfloor>"
    by simp_all
  from countRanges_planes_wgridding [OF this] show ?thesis by simp
qed

text \<open>
  Claim C7 as stated fails whenever \<open>(wmax_d - wmin_d) / dw\<close> is not an integer: in the
  instance above it is 1.5, the code counts \<open>\<lfloor>1.5 + 4\<rfloor> = 5\<close> planes, and
  \<open>\<lceil>1.5\<rceil> + 4\<close> is 6.
\<close>

theorem countRanges_planes_counterexample:
  "fst (snd (countRanges_planes True 2 (- 1 / 4) 0 (3 / 2) 4)) = 5 \<and>
   plane_spacing 2 (- 1 / 4) = 1 \<and>
   nat \<lceil>(3 / 2 - 0) / plane_spacing 2 (- 1 / 4)\<rceil> + 4 = 6"
  by (simp add: countRanges_planes_def plane_spacing_def plane_count_def to_size_t_def)

end
